theory Spec2Isabelle
  imports Complex_Main "HOL-Library.Monad_Syntax"
begin

section \<open>Conventions\<close>

text \<open>
  The development embeds two translation units of polyfem:
  \<^verbatim>\<open>src/utils/MatrixUtils.cpp\<close> (the class \<^verbatim>\<open>SpareMatrixCache\<close>) and
  \<^verbatim>\<open>src/solver/NLProblem.cpp\<close> (the class \<^verbatim>\<open>NLProblem\<close>).

  \<^item> A \<^verbatim>\<open>double\<close> is a \<^typ>\<open>real\<close>: arithmetic is exact, so rounding, signed zeros,
    infinities and NaN are outside the model.
  \<^item> Every operation that can hit an \<^verbatim>\<open>assert\<close>, an Eigen size check or an
    out-of-range access returns an \<open>option\<close>; \<open>None\<close> is that failure.
  \<^item> Member functions take the object and return the updated object next to their result.
  \<^item> Indices are natural numbers; the sizes \<^verbatim>\<open>full_size\<close> and \<^verbatim>\<open>reduced_size\<close>
    are C++ \<^verbatim>\<open>int\<close>s and are integers here (overflow is not modelled).
\<close>

type_synonym vec = "real list"
type_synonym triplet = "nat \<times> nat \<times> real"

section \<open>Dense vectors and matrices (Eigen expressions used by the code)\<close>

definition vadd :: "vec \<Rightarrow> vec \<Rightarrow> vec option" where
  "vadd a b = (if length a = length b then Some (map2 (+) a b) else None)"

definition vsub :: "vec \<Rightarrow> vec \<Rightarrow> vec option" where
  "vsub a b = (if length a = length b then Some (map2 (-) a b) else None)"

definition vscale :: "real \<Rightarrow> vec \<Rightarrow> vec" where
  "vscale c a = map ((*) c) a"

definition dot :: "vec \<Rightarrow> vec \<Rightarrow> real option" where
  "dot a b = (if length a = length b then Some (sum_list (map2 (*) a b)) else None)"

text \<open>A dense matrix is the list of its rows; \<open>A + B\<close> needs equal shapes.\<close>

definition mat_add :: "real list list \<Rightarrow> real list list \<Rightarrow> real list list option" where
  "mat_add A B =
     (if length A = length B \<and> list_all2 (\<lambda>a b. length a = length b) A B
      then Some (map2 (map2 (+)) A B) else None)"

section \<open>Compressed sparse matrices (\<^verbatim>\<open>Eigen::SparseMatrix<double, ColMajor>\<close>)\<close>

text \<open>
  A compressed column-major matrix is its three arrays: \<open>outerIndex\<close> (one offset per
  column and the number of non-zeros last), \<open>innerIndex\<close> (the row of each stored entry)
  and \<open>valuePtr\<close> (its value).
\<close>

record sparse =
  sp_rows :: nat
  sp_cols :: nat
  outerIndex :: "nat list"
  innerIndex :: "nat list"
  valuePtr :: "real list"

text \<open>\<^verbatim>\<open>resize(n, m)\<close> and \<^verbatim>\<open>setZero()\<close>: no stored entry.\<close>

definition sp_resize :: "nat \<Rightarrow> nat \<Rightarrow> sparse" where
  "sp_resize n m =
     \<lparr>sp_rows = n, sp_cols = m, outerIndex = replicate (Suc m) 0, innerIndex = [], valuePtr = []\<rparr>"

definition setZero :: "sparse \<Rightarrow> sparse" where
  "setZero M = sp_resize (sp_rows M) (sp_cols M)"

definition nonZeros :: "sparse \<Rightarrow> nat" where
  "nonZeros M = length (valuePtr M)"

text \<open>
  \<^verbatim>\<open>setFromTriplets\<close>: the stored positions are the positions named by some triplet,
  column by column and by ascending row inside a column; the values of the triplets
  of one position are summed. A triplet outside the matrix is refused.
\<close>

definition triplet_sum :: "triplet list \<Rightarrow> nat \<Rightarrow> nat \<Rightarrow> real" where
  "triplet_sum ts i j = sum_list (map (\<lambda>(r, c, v). if r = i \<and> c = j then v else 0) ts)"

definition col_positions :: "triplet list \<Rightarrow> nat \<Rightarrow> nat \<Rightarrow> (nat \<times> nat) list" where
  "col_positions ts n j =
     map (\<lambda>i. (i, j)) (filter (\<lambda>i. (i, j) \<in> set (map (\<lambda>(r, c, v). (r, c)) ts)) [0..<n])"

definition positions :: "triplet list \<Rightarrow> nat \<Rightarrow> nat \<Rightarrow> (nat \<times> nat) list" where
  "positions ts n m = concat (map (col_positions ts n) [0..<m])"

definition in_range :: "nat \<Rightarrow> nat \<Rightarrow> triplet \<Rightarrow> bool" where
  "in_range n m tr = (case tr of (r, c, v) \<Rightarrow> r < n \<and> c < m)"

definition setFromTriplets :: "nat \<Rightarrow> nat \<Rightarrow> triplet list \<Rightarrow> sparse option" where
  "setFromTriplets n m ts =
     (if list_all (in_range n m) ts
      then Some \<lparr>sp_rows = n, sp_cols = m,
                 outerIndex = map (\<lambda>j. length (positions ts n j)) [0..<Suc m],
                 innerIndex = map fst (positions ts n m),
                 valuePtr = map (\<lambda>(i, j). triplet_sum ts i j) (positions ts n m)\<rparr>
      else None)"

text \<open>The stored entries of a matrix, in storage order (an \<^verbatim>\<open>InnerIterator\<close> per column).\<close>

definition col_entries :: "sparse \<Rightarrow> nat \<Rightarrow> triplet list" where
  "col_entries M j =
     map (\<lambda>k. (innerIndex M ! k, j, valuePtr M ! k)) [outerIndex M ! j..<outerIndex M ! Suc j]"

definition to_triplets :: "sparse \<Rightarrow> triplet list" where
  "to_triplets M = concat (map (col_entries M) [0..<sp_cols M])"

text \<open>\<open>A + B\<close> on sparse matrices: the union of the two patterns, values added.\<close>

definition sp_add :: "sparse \<Rightarrow> sparse \<Rightarrow> sparse option" where
  "sp_add A B =
     (if sp_rows A = sp_rows B \<and> sp_cols A = sp_cols B
      then setFromTriplets (sp_rows A) (sp_cols A) (to_triplets A @ to_triplets B)
      else None)"

definition sp_scale :: "real \<Rightarrow> sparse \<Rightarrow> sparse" where
  "sp_scale c M = M\<lparr>valuePtr := map ((*) c) (valuePtr M)\<rparr>"

text \<open>\<open>M * v\<close> and the row vector \<open>v\<^sup>T * M\<close>.\<close>

definition sp_mul_vec :: "sparse \<Rightarrow> vec \<Rightarrow> vec option" where
  "sp_mul_vec M v =
     (if sp_cols M = length v
      then Some (map (\<lambda>r. sum_list (map (\<lambda>(i, j, a). if i = r then a * v ! j else 0) (to_triplets M)))
                   [0..<sp_rows M])
      else None)"

definition vec_mul_sp :: "vec \<Rightarrow> sparse \<Rightarrow> vec option" where
  "vec_mul_sp v M =
     (if sp_rows M = length v
      then Some (map (\<lambda>c. sum_list (map (\<lambda>(i, j, a). if j = c then v ! i * a else 0) (to_triplets M)))
                   [0..<sp_cols M])
      else None)"

section \<open>\<^verbatim>\<open>SpareMatrixCache\<close> (MatrixUtils.cpp)\<close>

text \<open>
  The members \<^verbatim>\<open>size_\<close>, \<^verbatim>\<open>tmp_\<close>, \<^verbatim>\<open>mat_\<close>, \<^verbatim>\<open>entries_\<close>, \<^verbatim>\<open>mapping_\<close>,
  \<^verbatim>\<open>inner_index_\<close>, \<^verbatim>\<open>outer_index_\<close> and \<^verbatim>\<open>values_\<close>; a field name cannot end in an
  underscore here, so each carries the prefix \<open>c_\<close> instead.
\<close>

record SpareMatrixCache =
  c_size :: nat
  c_tmp :: sparse
  c_mat :: sparse
  c_entries :: "triplet list"
  c_mapping :: "(nat \<times> nat) list list"
  c_inner_index :: "nat list"
  c_outer_index :: "nat list"
  c_values :: "real list"

text \<open>\<^verbatim>\<open>SpareMatrixCache(const size_t size)\<close>\<close>

definition SpareMatrixCache_new :: "nat \<Rightarrow> SpareMatrixCache" where
  "SpareMatrixCache_new n =
     \<lparr>c_size = n, c_tmp = sp_resize n n, c_mat = sp_resize n n, c_entries = [], c_mapping = [],
      c_inner_index = [], c_outer_index = [], c_values = []\<rparr>"

text \<open>\<^verbatim>\<open>set_zero()\<close>: lines 111 to 117.\<close>

definition set_zero :: "SpareMatrixCache \<Rightarrow> SpareMatrixCache" where
  "set_zero c =
     c\<lparr>c_tmp := setZero (c_tmp c), c_mat := setZero (c_mat c),
       c_values := replicate (length (c_values c)) 0\<rparr>"

text \<open>
  \<^verbatim>\<open>add_value(i, j, value)\<close>: without a mapping the triplet is queued; with one, every
  pair of row \<open>i\<close>'s list whose column is \<open>j\<close> adds the value to its slot, and
  \<^verbatim>\<open>assert(found)\<close> closes the scan.
\<close>

fun add_scan :: "(nat \<times> nat) list \<Rightarrow> nat \<Rightarrow> real \<Rightarrow> real list \<Rightarrow> bool \<Rightarrow> (real list \<times> bool) option" where
  "add_scan [] j v vals found = Some (vals, found)"
| "add_scan (p # ps) j v vals found =
     (if fst p = j
      then (if snd p < length vals
            then add_scan ps j v (vals[snd p := vals ! snd p + v]) True
            else None)
      else add_scan ps j v vals found)"

definition add_value :: "SpareMatrixCache \<Rightarrow> nat \<Rightarrow> nat \<Rightarrow> real \<Rightarrow> SpareMatrixCache option" where
  "add_value c i j v =
     (if c_mapping c = [] then Some (c\<lparr>c_entries := c_entries c @ [(i, j, v)]\<rparr>)
      else if i < length (c_mapping c)
      then (case add_scan (c_mapping c ! i) j v (c_values c) False of
              None \<Rightarrow> None
            | Some (vals, found) \<Rightarrow> if found then Some (c\<lparr>c_values := vals\<rparr>) else None)
      else None)"

text \<open>A sequence of \<^verbatim>\<open>add_value\<close> calls.\<close>

fun add_values :: "SpareMatrixCache \<Rightarrow> triplet list \<Rightarrow> SpareMatrixCache option" where
  "add_values c [] = Some c"
| "add_values c ((i, j, v) # ts) =
     (case add_value c i j v of None \<Rightarrow> None | Some c' \<Rightarrow> add_values c' ts)"

text \<open>\<^verbatim>\<open>prune()\<close>: lines 143 to 159.\<close>

definition prune :: "SpareMatrixCache \<Rightarrow> SpareMatrixCache option" where
  "prune c =
     (if c_mapping c = []
      then (case setFromTriplets (sp_rows (c_tmp c)) (sp_cols (c_tmp c)) (c_entries c) of
              None \<Rightarrow> None
            | Some tmp \<Rightarrow>
                (case sp_add (c_mat c) tmp of
                   None \<Rightarrow> None
                 | Some m \<Rightarrow> Some (c\<lparr>c_tmp := setZero tmp, c_mat := m, c_entries := []\<rparr>)))
      else Some c)"

text \<open>
  The mapping loop of \<^verbatim>\<open>get_matrix\<close> (lines 179 to 193): the state is the mapping and the
  running \<^verbatim>\<open>index\<close>.
\<close>

fun mapping_col :: "nat list \<Rightarrow> nat \<Rightarrow> nat list \<Rightarrow> (nat \<times> nat) list list \<times> nat \<Rightarrow>
    ((nat \<times> nat) list list \<times> nat) option" where
  "mapping_col inner i [] st = Some st"
| "mapping_col inner i (ii # iis) (mp, index) =
     (if ii < length inner \<and> inner ! ii < length mp
      then mapping_col inner i iis (mp[inner ! ii := mp ! (inner ! ii) @ [(i, index)]], Suc index)
      else None)"

fun mapping_rows :: "nat list \<Rightarrow> nat list \<Rightarrow> nat list \<Rightarrow> (nat \<times> nat) list list \<times> nat \<Rightarrow>
    ((nat \<times> nat) list list \<times> nat) option" where
  "mapping_rows outer inner [] st = Some st"
| "mapping_rows outer inner (i # is) st =
     (if Suc i < length outer
      then (case mapping_col inner i [outer ! i..<outer ! Suc i] st of
              None \<Rightarrow> None
            | Some st' \<Rightarrow> mapping_rows outer inner is st')
      else None)"

text \<open>
  The branch \<^verbatim>\<open>compute_mapping\<close> of \<^verbatim>\<open>get_matrix\<close>: the index arrays are copied from
  \<^verbatim>\<open>mat_\<close> and the mapping is built from them.
\<close>

definition compute_mapping_of :: "SpareMatrixCache \<Rightarrow> SpareMatrixCache option" where
  "compute_mapping_of c =
     (let m = c_mat c;
          inner = take (nonZeros m) (innerIndex m);
          outer = take (Suc (sp_rows m)) (outerIndex m)
      in if length inner = nonZeros m \<and> length outer = Suc (sp_rows m)
         then (case mapping_rows outer inner [0..<sp_rows m] (replicate (sp_rows m) [], 0) of
                 None \<Rightarrow> None
               | Some (mp, index) \<Rightarrow>
                   Some (c\<lparr>c_values := take (nonZeros m) (c_values c)
                                       @ replicate (nonZeros m - length (c_values c)) 0,
                           c_inner_index := inner, c_outer_index := outer, c_mapping := mp\<rparr>))
         else None)"

text \<open>\<^verbatim>\<open>get_matrix(compute_mapping)\<close>: lines 161 to 205; the matrix returned is \<^verbatim>\<open>mat_\<close>.\<close>

definition get_matrix :: "SpareMatrixCache \<Rightarrow> bool \<Rightarrow> (sparse \<times> SpareMatrixCache) option" where
  "get_matrix c compute_mapping =
     (case prune c of
        None \<Rightarrow> None
      | Some c1 \<Rightarrow>
          (case (if c_mapping c1 = []
                 then (if compute_mapping then compute_mapping_of c1 else Some c1)
                 else Some (c1\<lparr>c_mat :=
                        \<lparr>sp_rows = c_size c1, sp_cols = c_size c1, outerIndex = c_outer_index c1,
                         innerIndex = c_inner_index c1, valuePtr = c_values c1\<rparr>\<rparr>)) of
             None \<Rightarrow> None
           | Some c2 \<Rightarrow>
               (let c3 = c2\<lparr>c_values := replicate (length (c_values c2)) 0\<rparr>
                in Some (c_mat c3, c3))))"

subsection \<open>Notions for the cache proofs\<close>

text \<open>The positions named by a list of triplets.\<close>

definition keys_of :: "triplet list \<Rightarrow> (nat \<times> nat) set" where
  "keys_of ts = set (map (\<lambda>(r, c, v). (r, c)) ts)"

text \<open>The matrix that \<^verbatim>\<open>setFromTriplets\<close> builds from triplets inside the matrix.\<close>

definition assembled :: "triplet list \<Rightarrow> nat \<Rightarrow> nat \<Rightarrow> sparse" where
  "assembled ts n m =
     \<lparr>sp_rows = n, sp_cols = m,
      outerIndex = map (\<lambda>j. length (positions ts n j)) [0..<Suc m],
      innerIndex = map fst (positions ts n m),
      valuePtr = map (\<lambda>(i, j). triplet_sum ts i j) (positions ts n m)\<rparr>"

text \<open>The stored entry of an assembled matrix at a position.\<close>

definition entry_of :: "triplet list \<Rightarrow> nat \<times> nat \<Rightarrow> triplet" where
  "entry_of ts q = (fst q, snd q, triplet_sum ts (fst q) (snd q))"

text \<open>Row \<open>r\<close> of the mapping once the first \<open>b\<close> slots are recorded: the column and the slot of every
  stored entry of that row, by ascending slot.\<close>

definition slots_of :: "triplet list \<Rightarrow> nat \<Rightarrow> nat \<Rightarrow> nat \<Rightarrow> (nat \<times> nat) list" where
  "slots_of ts n b r =
     map (\<lambda>k. (snd (positions ts n n ! k), k))
       (filter (\<lambda>k. fst (positions ts n n ! k) = r) [0..<b])"

text \<open>A reference pattern: four nodes, six non-zeros.\<close>

definition reference_triplets :: "triplet list" where
  "reference_triplets = [(0, 0, 2), (1, 0, - 1), (0, 1, - 1), (1, 1, 2), (2, 2, 3), (3, 3, 4)]"

section \<open>The DOF reduction helpers\<close>

text \<open>
  Modelled from the spec: \<^verbatim>\<open>full_to_reduced_aux\<close> and \<^verbatim>\<open>reduced_to_full_aux\<close> are
  called by NLProblem.cpp and defined in a header that is not among the sources. The
  spec (section 4.1): \<^verbatim>\<open>full_to_reduced\<close> drops the entries at boundary indices and keeps
  the order of the others; \<^verbatim>\<open>reduced_to_full\<close> scatters the reduced entries into the
  free slots, in the same order, and fills each boundary slot from a full-size vector
  of boundary values. A vector of the wrong size is a fatal assertion failure
  (section 7). The arguments follow the two calls in NLProblem.cpp: the boundary
  nodes of the state, \<^verbatim>\<open>full_size\<close>, \<^verbatim>\<open>reduced_size\<close>, then the vectors.
\<close>

definition full_to_reduced_aux :: "nat list \<Rightarrow> int \<Rightarrow> int \<Rightarrow> vec \<Rightarrow> vec option" where
  "full_to_reduced_aux bn fs rs full =
     (if int (length full) = fs
      then Some (map snd (filter (\<lambda>(i, v). i \<notin> set bn) (zip [0..<length full] full)))
      else None)"

fun scatter :: "nat list \<Rightarrow> nat list \<Rightarrow> vec \<Rightarrow> vec \<Rightarrow> vec option" where
  "scatter bn [] r b = (if r = [] then Some [] else None)"
| "scatter bn (i # is) r b =
     (if i \<in> set bn then map_option ((#) (b ! i)) (scatter bn is r b)
      else (case r of [] \<Rightarrow> None | x # r' \<Rightarrow> map_option ((#) x) (scatter bn is r' b)))"

definition reduced_to_full_aux :: "nat list \<Rightarrow> int \<Rightarrow> int \<Rightarrow> vec \<Rightarrow> vec \<Rightarrow> vec option" where
  "reduced_to_full_aux bn fs rs r b =
     (if int (length r) = rs \<and> int (length b) = fs then scatter bn [0..<nat fs] r b else None)"

section \<open>\<^verbatim>\<open>NLProblem\<close> (NLProblem.cpp)\<close>

subsection \<open>The file-static flag\<close>

text \<open>
  \<^verbatim>\<open>static bool disable_collision = true;\<close> (line 12) is a variable of the translation
  unit, not a constant: it is the one field of the global state, and the member functions
  read it from there.
\<close>

record globals =
  disable_collision :: bool

definition initial_globals :: globals where
  "initial_globals = \<lparr>disable_collision = True\<rparr>"

subsection \<open>What the object reads from its collaborators\<close>

text \<open>
  \<^verbatim>\<open>State &state\<close>, the \<^verbatim>\<open>AssemblerUtils\<close> singleton, the \<^verbatim>\<open>RhsAssembler\<close> and the
  \<^verbatim>\<open>ipc\<close> library are not part of the two files: the record below holds exactly what
  NLProblem.cpp reads from them or calls on them, each call with the arguments that vary
  inside NLProblem.cpp (the bases, the local boundaries and the sample counts are fixed
  data of the state).
\<close>

type_synonym points = "real list list"
type_synonym candidates = "(nat \<times> nat) list"

record env =
  is_mixed :: bool                  \<comment> \<open>\<^verbatim>\<open>assembler.is_mixed(state.formulation())\<close>\<close>
  is_linear_state :: bool           \<comment> \<open>\<^verbatim>\<open>assembler.is_linear(state.formulation())\<close>\<close>
  is_linear_rhs :: bool             \<comment> \<open>\<^verbatim>\<open>assembler.is_linear(rhs_assembler.formulation())\<close>\<close>
  n_pressure_bases :: int
  n_bases :: int
  dimension :: int                  \<comment> \<open>\<^verbatim>\<open>state.mesh->dimension()\<close>\<close>
  boundary_nodes :: "nat list"
  problem_is_time_dependent :: bool \<comment> \<open>\<^verbatim>\<open>state.problem->is_time_dependent()\<close>\<close>
  has_collision :: bool             \<comment> \<open>\<^verbatim>\<open>state.args["has_collision"]\<close>\<close>
  mass :: sparse
  boundary_nodes_pos :: points
  boundary_edges :: "nat list list"
  boundary_triangles :: "nat list list"
  rhs_compute_energy_grad :: "real \<Rightarrow> vec"
  rhs_set_bc :: "vec \<Rightarrow> real \<Rightarrow> vec"
  rhs_compute_energy :: "vec \<Rightarrow> real \<Rightarrow> real"
  assemble_energy :: "vec \<Rightarrow> real"
  assemble_energy_gradient :: "vec \<Rightarrow> vec"
  assemble_energy_hessian :: "vec \<Rightarrow> sparse"
  assemble_problem :: sparse
  construct_constraint_set :: "points \<Rightarrow> nat list list \<Rightarrow> nat list list \<Rightarrow> real \<Rightarrow> candidates"
  compute_barrier_potential ::
    "points \<Rightarrow> points \<Rightarrow> nat list list \<Rightarrow> nat list list \<Rightarrow> candidates \<Rightarrow> real \<Rightarrow> real"
  compute_barrier_potential_gradient ::
    "points \<Rightarrow> points \<Rightarrow> nat list list \<Rightarrow> nat list list \<Rightarrow> candidates \<Rightarrow> real \<Rightarrow> vec"
  compute_barrier_potential_hessian ::
    "points \<Rightarrow> points \<Rightarrow> nat list list \<Rightarrow> nat list list \<Rightarrow> candidates \<Rightarrow> real \<Rightarrow> sparse"
  is_step_collision_free :: "points \<Rightarrow> points \<Rightarrow> nat list list \<Rightarrow> nat list list \<Rightarrow> bool"

subsection \<open>The object\<close>

text \<open>The member \<^verbatim>\<open>t\<close> is \<open>cur_t\<close> and \<^verbatim>\<open>_current_rhs\<close> is \<open>current_rhs_cache\<close>.\<close>

record NLProblem =
  full_size :: int
  reduced_size :: int
  cur_t :: real
  rhs_computed :: bool
  is_time_dependent :: bool
  current_rhs_cache :: vec
  x_prev :: vec
  v_prev :: vec
  dt :: real
  cached_stiffness :: sparse

text \<open>
  The constructor (lines 18 to 25). It leaves \<^verbatim>\<open>dt\<close> uninitialised: \<open>dt0\<close> is that
  indeterminate content. The vectors and the stiffness start empty.
\<close>

definition NLProblem_new :: "env \<Rightarrow> real \<Rightarrow> real \<Rightarrow> NLProblem option" where
  "NLProblem_new ctx t0 dt0 =
     (let fs = (if is_mixed ctx then n_pressure_bases ctx else 0) + n_bases ctx * dimension ctx
      in if \<not> is_mixed ctx
         then Some \<lparr>full_size = fs, reduced_size = fs - int (length (boundary_nodes ctx)),
                     cur_t = t0, rhs_computed = False,
                     is_time_dependent = problem_is_time_dependent ctx,
                     current_rhs_cache = [], x_prev = [], v_prev = [], dt = dt0,
                     cached_stiffness = sp_resize 0 0\<rparr>
         else None)"

definition init_timestep :: "NLProblem \<Rightarrow> vec \<Rightarrow> vec \<Rightarrow> real \<Rightarrow> NLProblem" where
  "init_timestep p xp vp d = p\<lparr>x_prev := xp, v_prev := vp, dt := d\<rparr>"

text \<open>
  \<^verbatim>\<open>update_quantities\<close> (lines 34 to 45). For \<open>dt = 0\<close> IEEE division gives infinities or
  NaN where \<open>x / 0 = 0\<close> here; nothing below depends on that case.
\<close>

definition update_quantities :: "NLProblem \<Rightarrow> real \<Rightarrow> vec \<Rightarrow> NLProblem option" where
  "update_quantities p t1 x =
     (if is_time_dependent p
      then (case vsub x (x_prev p) of
              None \<Rightarrow> None
            | Some d \<Rightarrow>
                Some (p\<lparr>v_prev := map (\<lambda>a. a / dt p) d, x_prev := x,
                        rhs_computed := False, cur_t := t1\<rparr>))
      else Some p)"

text \<open>The zero padding of the mixed branch of \<^verbatim>\<open>current_rhs\<close> (lines 54 to 62).\<close>

definition mixed_padding :: "env \<Rightarrow> NLProblem \<Rightarrow> vec \<Rightarrow> vec" where
  "mixed_padding ctx p r =
     (if is_mixed ctx
      then (if int (length r) < full_size p then r @ replicate (nat (n_pressure_bases ctx)) 0 else r)
      else r)"

text \<open>\<^verbatim>\<open>current_rhs()\<close> (lines 47 to 76).\<close>

definition current_rhs :: "env \<Rightarrow> NLProblem \<Rightarrow> (vec \<times> NLProblem) option" where
  "current_rhs ctx p =
     (if \<not> rhs_computed p
      then do {
        let r1 = mixed_padding ctx p (rhs_compute_energy_grad ctx (cur_t p));
        r2 \<leftarrow> (if int (length r1) = full_size p then Some r1 else None);
        r3 \<leftarrow> (if is_time_dependent p
               then do {
                 pred \<leftarrow> vadd (x_prev p) (vscale (dt p) (v_prev p));
                 tmp \<leftarrow> sp_mul_vec (mass ctx) pred;
                 vadd (vscale (dt p * dt p / 2) r2) tmp
               }
               else Some r2);
        let r4 = rhs_set_bc ctx r3 (cur_t p);
        Some (r4, p\<lparr>current_rhs_cache := r4, rhs_computed := True\<rparr>)
      }
      else Some (current_rhs_cache p, p))"

definition full_to_reduced :: "env \<Rightarrow> NLProblem \<Rightarrow> vec \<Rightarrow> vec option" where
  "full_to_reduced ctx p full =
     full_to_reduced_aux (boundary_nodes ctx) (full_size p) (reduced_size p) full"

definition reduced_to_full :: "env \<Rightarrow> NLProblem \<Rightarrow> vec \<Rightarrow> (vec \<times> NLProblem) option" where
  "reduced_to_full ctx p r =
     do {
       (rhs, p1) \<leftarrow> current_rhs ctx p;
       full \<leftarrow> reduced_to_full_aux (boundary_nodes ctx) (full_size p1) (reduced_size p1) r rhs;
       Some (full, p1)
     }"

text \<open>
  The opening lines of \<^verbatim>\<open>value\<close>, \<^verbatim>\<open>gradient\<close>, \<^verbatim>\<open>gradient_no_rhs\<close> and
  \<^verbatim>\<open>hessian_full\<close>, and twice of \<^verbatim>\<open>is_step_valid\<close>: an input of reduced length is
  expanded, any other is taken as it is, and the result must have the full length.
\<close>

definition expand_input :: "env \<Rightarrow> NLProblem \<Rightarrow> vec \<Rightarrow> (vec \<times> NLProblem) option" where
  "expand_input ctx p x =
     do {
       (full, p1) \<leftarrow> (if int (length x) = reduced_size p then reduced_to_full ctx p x
                      else Some (x, p));
       if int (length full) = full_size p1 then Some (full, p1) else None
     }"

text \<open>
  The reshaping loop that precedes every contact call, with the three assertions behind
  it: one point per node, \<^verbatim>\<open>problem_dim\<close> consecutive entries each. The assertions read
  the entries (0,0) and (0,1), so they need a first row and two columns.
\<close>

definition reshape :: "int \<Rightarrow> vec \<Rightarrow> points option" where
  "reshape problem_dim full =
     (if problem_dim < 2 \<or> full = [] \<or> length full mod nat problem_dim \<noteq> 0 then None
      else Some (map (\<lambda>i. map (\<lambda>d. full ! (i * nat problem_dim + d)) [0..<nat problem_dim])
                   [0..<length full div nat problem_dim]))"

text \<open>\<^verbatim>\<open>state.boundary_nodes_pos + reshaped\<close>\<close>

definition displaced :: "env \<Rightarrow> vec \<Rightarrow> points option" where
  "displaced ctx full =
     do {
       reshaped \<leftarrow> reshape (dimension ctx) full;
       mat_add (boundary_nodes_pos ctx) reshaped
     }"

definition dhat_squared :: real where
  "dhat_squared = 1 / 1000000"

text \<open>The contact block of \<^verbatim>\<open>value\<close> (lines 168 to 195): the barrier potential.\<close>

definition collision_energy_of :: "env \<Rightarrow> vec \<Rightarrow> real option" where
  "collision_energy_of ctx full =
     do {
       pts \<leftarrow> displaced ctx full;
       let constraint_set = construct_constraint_set ctx pts (boundary_edges ctx)
                              (boundary_triangles ctx) dhat_squared;
       Some (compute_barrier_potential ctx (boundary_nodes_pos ctx) pts (boundary_edges ctx)
               (boundary_triangles ctx) constraint_set dhat_squared)
     }"

text \<open>\<^verbatim>\<open>value(x)\<close> (lines 140 to 199).\<close>

definition "value" :: "env \<Rightarrow> globals \<Rightarrow> NLProblem \<Rightarrow> vec \<Rightarrow> (real \<times> NLProblem) option" where
  "value ctx g p x =
     do {
       (full, p1) \<leftarrow> expand_input ctx p x;
       let elastic_energy = assemble_energy ctx full;
       let body_energy = rhs_compute_energy ctx full (cur_t p1);
       (scaling, intertia_energy) \<leftarrow>
          (if is_time_dependent p1
           then do {
             pred \<leftarrow> vadd (x_prev p1) (vscale (dt p1) (v_prev p1));
             tmp \<leftarrow> vsub full pred;
             row \<leftarrow> vec_mul_sp (vscale (1 / 2) tmp) (mass ctx);
             q \<leftarrow> dot row tmp;
             Some (dt p1 * dt p1 / 2, q)
           }
           else Some (1, 0));
       collision_energy \<leftarrow>
          (if \<not> disable_collision g \<and> has_collision ctx then collision_energy_of ctx full
           else Some 0);
       Some (scaling * (elastic_energy + body_energy + 100000000 * collision_energy)
               + intertia_energy, p1)
     }"

text \<open>\<^verbatim>\<open>compute_cached_stiffness()\<close> (lines 201 to 211).\<close>

definition compute_cached_stiffness :: "env \<Rightarrow> NLProblem \<Rightarrow> NLProblem" where
  "compute_cached_stiffness ctx p =
     (if sp_rows (cached_stiffness p) * sp_cols (cached_stiffness p) = 0
      then (if is_linear_state ctx then p\<lparr>cached_stiffness := assemble_problem ctx\<rparr> else p)
      else p)"

text \<open>\<^verbatim>\<open>gradient_no_rhs(x, grad)\<close> (lines 238 to 271).\<close>

definition gradient_no_rhs :: "env \<Rightarrow> globals \<Rightarrow> NLProblem \<Rightarrow> vec \<Rightarrow> (vec \<times> NLProblem) option" where
  "gradient_no_rhs ctx g p x =
     do {
       (full, p1) \<leftarrow> expand_input ctx p x;
       let grad = assemble_energy_gradient ctx full;
       grad1 \<leftarrow>
          (if \<not> disable_collision g \<and> has_collision ctx
           then do {
             pts \<leftarrow> displaced ctx full;
             let constraint_set = construct_constraint_set ctx pts (boundary_edges ctx)
                                    (boundary_triangles ctx) dhat_squared;
             vadd grad (vscale 100000000
               (compute_barrier_potential_gradient ctx (boundary_nodes_pos ctx) pts
                  (boundary_edges ctx) (boundary_triangles ctx) constraint_set dhat_squared))
           }
           else Some grad);
       if int (length grad1) = full_size p1 then Some (grad1, p1) else None
     }"

text \<open>\<^verbatim>\<open>gradient(x, gradv)\<close> (lines 213 to 236).\<close>

definition gradient :: "env \<Rightarrow> globals \<Rightarrow> NLProblem \<Rightarrow> vec \<Rightarrow> (vec \<times> NLProblem) option" where
  "gradient ctx g p x =
     do {
       (grad, p1) \<leftarrow> gradient_no_rhs ctx g p x;
       (grad1, p2) \<leftarrow>
          (if is_time_dependent p1
           then do {
             (full, p2) \<leftarrow> expand_input ctx p1 x;
             mf \<leftarrow> sp_mul_vec (mass ctx) full;
             g1 \<leftarrow> vadd (vscale (dt p2 * dt p2 / 2) grad) mf;
             Some (g1, p2)
           }
           else Some (grad, p1));
       (rhs, p3) \<leftarrow> current_rhs ctx p2;
       grad2 \<leftarrow> vsub grad1 rhs;
       gradv \<leftarrow> full_to_reduced ctx p3 grad2;
       Some (gradv, p3)
     }"

text \<open>\<^verbatim>\<open>hessian_full(x, hessian)\<close> (lines 325 to 371).\<close>

definition hessian_full :: "env \<Rightarrow> globals \<Rightarrow> NLProblem \<Rightarrow> vec \<Rightarrow> (sparse \<times> NLProblem) option" where
  "hessian_full ctx g p x =
     do {
       (full, p1) \<leftarrow> expand_input ctx p x;
       let p2 = (if is_linear_rhs ctx then compute_cached_stiffness ctx p1 else p1);
       let h = (if is_linear_rhs ctx then cached_stiffness p2 else assemble_energy_hessian ctx full);
       h1 \<leftarrow> (if is_time_dependent p2 then sp_add (sp_scale (dt p2 * dt p2 / 2) h) (mass ctx)
              else Some h);
       h2 \<leftarrow>
          (if \<not> disable_collision g \<and> has_collision ctx
           then do {
             pts \<leftarrow> displaced ctx full;
             let constraint_set = construct_constraint_set ctx pts (boundary_edges ctx)
                                    (boundary_triangles ctx) dhat_squared;
             sp_add h1 (sp_scale 100000000
               (compute_barrier_potential_hessian ctx (boundary_nodes_pos ctx) pts
                  (boundary_edges ctx) (boundary_triangles ctx) constraint_set dhat_squared))
           }
           else Some h1);
       if int (sp_rows h2) = full_size p2 \<and> int (sp_cols h2) = full_size p2
       then Some (h2, p2) else None
     }"

text \<open>
  \<^verbatim>\<open>hessian(x, hessian)\<close> (lines 273 to 323). The first loop numbers the free rows and
  gives a boundary row the sentinel \<open>-1\<close>; it returns the numbering and the final
  \<^verbatim>\<open>index\<close>.
\<close>

fun build_indices :: "nat list \<Rightarrow> nat list \<Rightarrow> nat \<Rightarrow> int \<Rightarrow> int list \<times> int" where
  "build_indices bn [] kk index = ([], index)"
| "build_indices bn (i # is) kk index =
     (if kk < length bn \<and> bn ! kk = i
      then (case build_indices bn is (Suc kk) index of (l, e) \<Rightarrow> (- 1 # l, e))
      else (case build_indices bn is kk (index + 1) of (l, e) \<Rightarrow> (index # l, e)))"

definition reduced_entries :: "int list \<Rightarrow> sparse \<Rightarrow> triplet list" where
  "reduced_entries indices tmp =
     concat (map (\<lambda>k. if indices ! k < 0 then []
                      else map (\<lambda>(r, c, v). (nat (indices ! r), nat (indices ! c), v))
                             (filter (\<lambda>(r, c, v). \<not> (indices ! r < 0 \<or> indices ! c < 0))
                                (col_entries tmp k)))
               [0..<sp_cols tmp])"

text \<open>
  Lines 278 to 322: the numbering, the copy of the entries whose row and column are both
  free, and the assembly of the reduced matrix. A stored row outside the numbering would
  be an out-of-range read of \<^verbatim>\<open>indices\<close>.
\<close>

definition eliminate_boundary :: "env \<Rightarrow> NLProblem \<Rightarrow> sparse \<Rightarrow> sparse option" where
  "eliminate_boundary ctx p tmp =
     (case build_indices (boundary_nodes ctx) [0..<nat (full_size p)] 0 0 of
        (indices, index) \<Rightarrow>
          if index = reduced_size p \<and> list_all (\<lambda>(r, c, v). r < length indices) (to_triplets tmp)
          then setFromTriplets (nat (reduced_size p)) (nat (reduced_size p))
                 (reduced_entries indices tmp)
          else None)"

definition hessian :: "env \<Rightarrow> globals \<Rightarrow> NLProblem \<Rightarrow> vec \<Rightarrow> (sparse \<times> NLProblem) option" where
  "hessian ctx g p x =
     do {
       (tmp, p1) \<leftarrow> hessian_full ctx g p x;
       h \<leftarrow> eliminate_boundary ctx p1 tmp;
       Some (h, p1)
     }"

text \<open>\<^verbatim>\<open>is_step_valid(x0, x1)\<close> (lines 79 to 138).\<close>

definition is_step_valid :: "env \<Rightarrow> globals \<Rightarrow> NLProblem \<Rightarrow> vec \<Rightarrow> vec \<Rightarrow> (bool \<times> NLProblem) option" where
  "is_step_valid ctx g p x0 x1 =
     (if disable_collision g then Some (True, p)
      else if \<not> has_collision ctx then Some (True, p)
      else do {
        (full0, p1) \<leftarrow> (if int (length x0) = reduced_size p then reduced_to_full ctx p x0
                        else Some (x0, p));
        (full1, p2) \<leftarrow> (if int (length x1) = reduced_size p1 then reduced_to_full ctx p1 x1
                        else Some (x1, p1));
        if int (length full0) = full_size p2 \<and> int (length full1) = full_size p2
        then do {
          pts0 \<leftarrow> displaced ctx full0;
          pts1 \<leftarrow> displaced ctx full1;
          Some (\<not> is_step_collision_free ctx pts0 pts1 (boundary_edges ctx)
                    (boundary_triangles ctx), p2)
        }
        else None
      })"

subsection \<open>The configurations a program can reach\<close>

text \<open>
  A configuration is the global state and one object. A program constructs the object
  and then calls member functions in any order; a call that fails ends the program.
\<close>

inductive reachable :: "env \<Rightarrow> globals \<times> NLProblem \<Rightarrow> bool" for ctx :: env where
  constructed: "NLProblem_new ctx t0 dt0 = Some p \<Longrightarrow> reachable ctx (initial_globals, p)"
| after_init_timestep: "reachable ctx (g, p) \<Longrightarrow> reachable ctx (g, init_timestep p xp vp d)"
| after_update_quantities:
    "reachable ctx (g, p) \<Longrightarrow> update_quantities p t1 x = Some p' \<Longrightarrow> reachable ctx (g, p')"
| after_current_rhs:
    "reachable ctx (g, p) \<Longrightarrow> current_rhs ctx p = Some (r, p') \<Longrightarrow> reachable ctx (g, p')"
| after_reduced_to_full:
    "reachable ctx (g, p) \<Longrightarrow> reduced_to_full ctx p x = Some (r, p') \<Longrightarrow> reachable ctx (g, p')"
| after_is_step_valid:
    "reachable ctx (g, p) \<Longrightarrow> is_step_valid ctx g p x0 x1 = Some (ok, p') \<Longrightarrow> reachable ctx (g, p')"
| after_value:
    "reachable ctx (g, p) \<Longrightarrow> value ctx g p x = Some (e, p') \<Longrightarrow> reachable ctx (g, p')"
| after_compute_cached_stiffness:
    "reachable ctx (g, p) \<Longrightarrow> reachable ctx (g, compute_cached_stiffness ctx p)"
| after_gradient:
    "reachable ctx (g, p) \<Longrightarrow> gradient ctx g p x = Some (r, p') \<Longrightarrow> reachable ctx (g, p')"
| after_gradient_no_rhs:
    "reachable ctx (g, p) \<Longrightarrow> gradient_no_rhs ctx g p x = Some (r, p') \<Longrightarrow> reachable ctx (g, p')"
| after_hessian:
    "reachable ctx (g, p) \<Longrightarrow> hessian ctx g p x = Some (h, p') \<Longrightarrow> reachable ctx (g, p')"
| after_hessian_full:
    "reachable ctx (g, p) \<Longrightarrow> hessian_full ctx g p x = Some (h, p') \<Longrightarrow> reachable ctx (g, p')"

text \<open>
  The collaborators \<open>ctx\<close> with another collision flag and with the contact routines of
  \<open>other\<close>: what a result must not depend on when no contact term enters it.
\<close>

definition with_contact_of :: "env \<Rightarrow> bool \<Rightarrow> env \<Rightarrow> env" where
  "with_contact_of ctx b other =
     ctx\<lparr>has_collision := b,
         construct_constraint_set := construct_constraint_set other,
         compute_barrier_potential := compute_barrier_potential other,
         compute_barrier_potential_gradient := compute_barrier_potential_gradient other,
         compute_barrier_potential_hessian := compute_barrier_potential_hessian other\<rparr>"

subsection \<open>The terms of the energy\<close>

definition scaling_of :: "NLProblem \<Rightarrow> real" where
  "scaling_of p = (if is_time_dependent p then dt p * dt p / 2 else 1)"

definition inertial_term :: "env \<Rightarrow> NLProblem \<Rightarrow> vec \<Rightarrow> real option" where
  "inertial_term ctx p full =
     (if is_time_dependent p
      then do {
        pred \<leftarrow> vadd (x_prev p) (vscale (dt p) (v_prev p));
        tmp \<leftarrow> vsub full pred;
        row \<leftarrow> vec_mul_sp (vscale (1 / 2) tmp) (mass ctx);
        dot row tmp
      }
      else Some 0)"

definition barrier_term :: "env \<Rightarrow> globals \<Rightarrow> vec \<Rightarrow> real option" where
  "barrier_term ctx g full =
     (if \<not> disable_collision g \<and> has_collision ctx then collision_energy_of ctx full else Some 0)"


text \<open>The gradient and the Hessian that follow the expansion of the input.\<close>

definition gradient_at :: "env \<Rightarrow> globals \<Rightarrow> vec \<Rightarrow> vec option" where
  "gradient_at ctx g full =
     (if \<not> disable_collision g \<and> has_collision ctx
      then do {
        pts \<leftarrow> displaced ctx full;
        vadd (assemble_energy_gradient ctx full) (vscale 100000000
          (compute_barrier_potential_gradient ctx (boundary_nodes_pos ctx) pts
             (boundary_edges ctx) (boundary_triangles ctx)
             (construct_constraint_set ctx pts (boundary_edges ctx) (boundary_triangles ctx)
                dhat_squared) dhat_squared))
      }
      else Some (assemble_energy_gradient ctx full))"

definition hessian_at :: "env \<Rightarrow> globals \<Rightarrow> NLProblem \<Rightarrow> vec \<Rightarrow> sparse option" where
  "hessian_at ctx g p full =
     do {
       h1 \<leftarrow> (if is_time_dependent p
              then sp_add (sp_scale (dt p * dt p / 2)
                     (if is_linear_rhs ctx then cached_stiffness p
                      else assemble_energy_hessian ctx full)) (mass ctx)
              else Some (if is_linear_rhs ctx then cached_stiffness p
                         else assemble_energy_hessian ctx full));
       (if \<not> disable_collision g \<and> has_collision ctx
        then do {
          pts \<leftarrow> displaced ctx full;
          sp_add h1 (sp_scale 100000000
            (compute_barrier_potential_hessian ctx (boundary_nodes_pos ctx) pts
               (boundary_edges ctx) (boundary_triangles ctx)
               (construct_constraint_set ctx pts (boundary_edges ctx) (boundary_triangles ctx)
                  dhat_squared) dhat_squared))
        }
        else Some h1)
     }"

subsection \<open>A small instance\<close>

text \<open>
  One node in the plane, its first degree of freedom prescribed (to the value 0), a
  quadratic elastic energy, a zero mass matrix and a contact library that reports the
  barrier potential 1.
\<close>

definition example_env :: env where
  "example_env =
     \<lparr>is_mixed = False, is_linear_state = False, is_linear_rhs = False,
      n_pressure_bases = 0, n_bases = 1, dimension = 2, boundary_nodes = [0],
      problem_is_time_dependent = True, has_collision = True, mass = sp_resize 2 2,
      boundary_nodes_pos = [[0, 0]], boundary_edges = [], boundary_triangles = [],
      rhs_compute_energy_grad = (\<lambda>t. [0, 0]),
      rhs_set_bc = (\<lambda>v t. v[0 := 0]),
      rhs_compute_energy = (\<lambda>v t. 0),
      assemble_energy = (\<lambda>v. sum_list (map (\<lambda>a. a * a) v)),
      assemble_energy_gradient = (\<lambda>v. map (\<lambda>a. 2 * a) v),
      assemble_energy_hessian =
        (\<lambda>v. \<lparr>sp_rows = 2, sp_cols = 2, outerIndex = [0, 1, 2], innerIndex = [0, 1],
               valuePtr = [2, 2]\<rparr>),
      assemble_problem = sp_resize 2 2,
      construct_constraint_set = (\<lambda>pts e f d. []),
      compute_barrier_potential = (\<lambda>rest pts e f c d. 1),
      compute_barrier_potential_gradient = (\<lambda>rest pts e f c d. [0, 0]),
      compute_barrier_potential_hessian = (\<lambda>rest pts e f c d. sp_resize 2 2),
      is_step_collision_free = (\<lambda>a b e f. True)\<rparr>"

text \<open>The object after its construction and \<^verbatim>\<open>init_timestep([0,0], [0,0], 2)\<close>.\<close>

definition example_problem :: NLProblem where
  "example_problem =
     \<lparr>full_size = 2, reduced_size = 1, cur_t = 0, rhs_computed = False,
      is_time_dependent = True, current_rhs_cache = [], x_prev = [0, 0], v_prev = [0, 0],
      dt = 2, cached_stiffness = sp_resize 0 0\<rparr>"

text \<open>The same object once \<^verbatim>\<open>current_rhs()\<close> has run.\<close>

definition example_problem_rhs :: NLProblem where
  "example_problem_rhs = example_problem\<lparr>current_rhs_cache := [0, 0], rhs_computed := True\<rparr>"

definition contact_enabled :: globals where
  "contact_enabled = \<lparr>disable_collision = False\<rparr>"

text \<open>A static problem for the same node.\<close>

definition static_problem :: NLProblem where
  "static_problem = example_problem\<lparr>is_time_dependent := False\<rparr>"

section \<open>Lemmas\<close>

lemma reachable_flag: "reachable ctx cfg \<Longrightarrow> disable_collision (fst cfg)"
  by (induction rule: reachable.induct) (simp_all add: initial_globals_def)

lemma with_contact_of_fields:
  "is_mixed (with_contact_of ctx b other) = is_mixed ctx"
  "is_linear_state (with_contact_of ctx b other) = is_linear_state ctx"
  "is_linear_rhs (with_contact_of ctx b other) = is_linear_rhs ctx"
  "n_pressure_bases (with_contact_of ctx b other) = n_pressure_bases ctx"
  "n_bases (with_contact_of ctx b other) = n_bases ctx"
  "dimension (with_contact_of ctx b other) = dimension ctx"
  "boundary_nodes (with_contact_of ctx b other) = boundary_nodes ctx"
  "problem_is_time_dependent (with_contact_of ctx b other) = problem_is_time_dependent ctx"
  "mass (with_contact_of ctx b other) = mass ctx"
  "rhs_compute_energy_grad (with_contact_of ctx b other) = rhs_compute_energy_grad ctx"
  "rhs_set_bc (with_contact_of ctx b other) = rhs_set_bc ctx"
  "rhs_compute_energy (with_contact_of ctx b other) = rhs_compute_energy ctx"
  "assemble_energy (with_contact_of ctx b other) = assemble_energy ctx"
  "assemble_energy_gradient (with_contact_of ctx b other) = assemble_energy_gradient ctx"
  "assemble_energy_hessian (with_contact_of ctx b other) = assemble_energy_hessian ctx"
  "assemble_problem (with_contact_of ctx b other) = assemble_problem ctx"
  by (simp_all add: with_contact_of_def)

lemma current_rhs_contact: "current_rhs (with_contact_of ctx b other) p = current_rhs ctx p"
  by (simp add: current_rhs_def mixed_padding_def with_contact_of_fields cong: if_cong)

lemma reduced_to_full_contact:
  "reduced_to_full (with_contact_of ctx b other) p x = reduced_to_full ctx p x"
  by (simp add: reduced_to_full_def current_rhs_contact with_contact_of_fields)

lemma expand_input_contact:
  "expand_input (with_contact_of ctx b other) p x = expand_input ctx p x"
  by (simp add: expand_input_def reduced_to_full_contact)

lemma value_contact:
  "disable_collision g \<Longrightarrow> value (with_contact_of ctx b other) g p x = value ctx g p x"
  by (simp add: value_def expand_input_contact with_contact_of_fields cong: if_cong)

lemma gradient_no_rhs_contact:
  "disable_collision g \<Longrightarrow>
   gradient_no_rhs (with_contact_of ctx b other) g p x = gradient_no_rhs ctx g p x"
  by (simp add: gradient_no_rhs_def expand_input_contact with_contact_of_fields cong: if_cong)

lemma hessian_full_contact:
  "disable_collision g \<Longrightarrow>
   hessian_full (with_contact_of ctx b other) g p x = hessian_full ctx g p x"
  by (simp add: hessian_full_def expand_input_contact with_contact_of_fields
      compute_cached_stiffness_def cong: if_cong)

lemma example_constructed:
  "NLProblem_new example_env 0 2 = Some (example_problem\<lparr>x_prev := [], v_prev := []\<rparr>)"
  by (simp add: NLProblem_new_def example_env_def example_problem_def)

lemma example_reachable: "reachable example_env (initial_globals, example_problem)"
proof -
  have "reachable example_env (initial_globals, example_problem\<lparr>x_prev := [], v_prev := []\<rparr>)"
    using example_constructed by (rule constructed)
  then have "reachable example_env
      (initial_globals, init_timestep (example_problem\<lparr>x_prev := [], v_prev := []\<rparr>) [0, 0] [0, 0] 2)"
    by (rule after_init_timestep)
  then show ?thesis by (simp add: init_timestep_def example_problem_def)
qed

lemma scatter_length: "scatter bn is r b = Some f \<Longrightarrow> length f = length is"
  by (induction "is" arbitrary: r f) (auto split: if_splits list.splits)

lemma scatter_roundtrip:
  "scatter bn is r b = Some f \<Longrightarrow> map snd (filter (\<lambda>(i, v). i \<notin> set bn) (zip is f)) = r"
  by (induction "is" arbitrary: r f) (auto split: if_splits list.splits)

lemma scatter_defined:
  "length r = length (filter (\<lambda>i. i \<notin> set bn) is) \<Longrightarrow> \<exists>f. scatter bn is r b = Some f"
proof (induction "is" arbitrary: r)
  case Nil
  then show ?case by simp
next
  case (Cons i "is")
  show ?case
  proof (cases "i \<in> set bn")
    case True
    with Cons.prems have "length r = length (filter (\<lambda>i. i \<notin> set bn) is)" by simp
    from Cons.IH [OF this] True show ?thesis by auto
  next
    case False
    with Cons.prems obtain x r' where r: "r = x # r'" and "length r' = length (filter (\<lambda>i. i \<notin> set bn) is)"
      by (cases r) auto
    from Cons.IH [OF this(2)] False r show ?thesis by auto
  qed
qed

lemma scatter_boundary:
  "scatter bn is r b = Some f \<Longrightarrow> j < length is \<Longrightarrow> is ! j \<in> set bn \<Longrightarrow> f ! j = b ! (is ! j)"
proof (induction "is" arbitrary: r f j)
  case Nil
  then show ?case by simp
next
  case (Cons i "is")
  then show ?case
    by (cases j) (auto split: if_splits list.splits)
qed

lemma free_count:
  assumes "distinct bn" and "set bn \<subseteq> {0..<n}"
  shows "length (filter (\<lambda>i. i \<notin> set bn) [0..<n]) + length bn = n"
proof -
  have "length (filter (\<lambda>i. i \<in> set bn) [0..<n]) = card ({i. i \<in> set bn} \<inter> set [0..<n])"
    by (rule distinct_length_filter) simp
  also have "{i. i \<in> set bn} \<inter> set [0..<n] = set bn" using assms(2) by auto
  also have "card (set bn) = length bn" using assms(1) by (rule distinct_card)
  finally have "length (filter (\<lambda>i. i \<in> set bn) [0..<n]) = length bn" .
  moreover have "length (filter (\<lambda>i. i \<in> set bn) [0..<n]) + length (filter (\<lambda>i. \<not> i \<in> set bn) [0..<n]) = length [0..<n]"
    by (rule sum_length_filter_compl)
  ultimately show ?thesis by simp
qed

lemma length_filter_zip_upt:
  "length (filter (\<lambda>(i, v). P i) (zip [0..<length x] x)) = length (filter P [0..<length x])"
proof -
  have "zip [0..<length x] x = map (\<lambda>i. (i, x ! i)) [0..<length x]"
    by (rule nth_equalityI) auto
  then show ?thesis by (simp add: filter_map comp_def)
qed

lemma current_rhs_state:
  "current_rhs ctx p = Some (r, p') \<Longrightarrow> p' = p\<lparr>current_rhs_cache := r, rhs_computed := True\<rparr>"
  by (cases "rhs_computed p") (auto simp: current_rhs_def Let_def split: Option.bind_splits if_splits)

lemma reduced_to_full_state:
  "reduced_to_full ctx p x = Some (f, p') \<Longrightarrow>
   \<exists>r. current_rhs ctx p = Some (r, p')
     \<and> reduced_to_full_aux (boundary_nodes ctx) (full_size p) (reduced_size p) x r = Some f"
  by (auto simp: reduced_to_full_def split: Option.bind_splits dest: current_rhs_state)

lemma expand_input_state:
  "expand_input ctx p x = Some (f, p') \<Longrightarrow>
   int (length f) = full_size p
   \<and> (if int (length x) = reduced_size p then reduced_to_full ctx p x = Some (f, p')
      else f = x \<and> p' = p)"
  by (auto simp: expand_input_def split: Option.bind_splits if_splits
      dest!: reduced_to_full_state current_rhs_state)

lemma value_state:
  "value ctx g p x = Some (e, p') \<Longrightarrow> \<exists>full. expand_input ctx p x = Some (full, p')"
  by (auto simp: value_def split: Option.bind_splits)

lemma gradient_no_rhs_state:
  "gradient_no_rhs ctx g p x = Some (r, p') \<Longrightarrow> \<exists>full. expand_input ctx p x = Some (full, p')"
  by (auto simp: gradient_no_rhs_def Let_def split: Option.bind_splits if_splits)

lemma gradient_state:
  "gradient ctx g p x = Some (r, p') \<Longrightarrow>
   \<exists>grad p1 p2 rhs. gradient_no_rhs ctx g p x = Some (grad, p1)
     \<and> (p2 = p1 \<or> (\<exists>full. expand_input ctx p1 x = Some (full, p2)))
     \<and> current_rhs ctx p2 = Some (rhs, p')"
  by (fastforce simp: gradient_def split: Option.bind_splits if_splits)

lemma hessian_full_state:
  "hessian_full ctx g p x = Some (h, p') \<Longrightarrow>
   \<exists>full p1. expand_input ctx p x = Some (full, p1)
     \<and> (p' = p1 \<or> p' = compute_cached_stiffness ctx p1)"
  by (auto simp: hessian_full_def Let_def split: Option.bind_splits if_splits)

lemma hessian_state:
  "hessian ctx g p x = Some (h, p') \<Longrightarrow> \<exists>h'. hessian_full ctx g p x = Some (h', p')"
  by (auto simp: hessian_def split: Option.bind_splits if_splits prod.splits)

lemma is_step_valid_state:
  "is_step_valid ctx g p x0 x1 = Some (ok, p') \<Longrightarrow>
   \<exists>p1. (p1 = p \<or> (\<exists>f. reduced_to_full ctx p x0 = Some (f, p1)))
     \<and> (p' = p1 \<or> (\<exists>f. reduced_to_full ctx p1 x1 = Some (f, p')))"
  by (fastforce simp: is_step_valid_def split: Option.bind_splits if_splits)


lemma reachable_invariant:
  assumes r: "reachable ctx cfg"
    and new: "\<And>t0 dt0 p. NLProblem_new ctx t0 dt0 = Some p \<Longrightarrow> I p"
    and tstep: "\<And>p xp vp d. I p \<Longrightarrow> I (init_timestep p xp vp d)"
    and upd: "\<And>p t1 x p'. I p \<Longrightarrow> update_quantities p t1 x = Some p' \<Longrightarrow> I p'"
    and rhs: "\<And>p r p'. I p \<Longrightarrow> current_rhs ctx p = Some (r, p') \<Longrightarrow> I p'"
    and stiff: "\<And>p. I p \<Longrightarrow> I (compute_cached_stiffness ctx p)"
  shows "I (snd cfg)"
proof -
  have rtf: "I p'" if "I p" and "reduced_to_full ctx p x = Some (f, p')" for p x f p'
    using that rhs by (blast dest: reduced_to_full_state)
  have ex: "I p'" if "I p" and "expand_input ctx p x = Some (f, p')" for p x f p'
    using expand_input_state [OF that(2)] that(1) rtf by (auto split: if_splits)
  show ?thesis
    using r
  proof (induction rule: reachable.induct)
    case (constructed t0 dt0 p)
    then show ?case by (simp add: new)
  next
    case (after_init_timestep g p xp vp d)
    then show ?case by (simp add: tstep)
  next
    case (after_update_quantities g p t1 x p')
    then show ?case using upd by auto
  next
    case (after_current_rhs g p r p')
    then show ?case using rhs by auto
  next
    case (after_reduced_to_full g p x r p')
    then show ?case using rtf by auto
  next
    case (after_is_step_valid g p x0 x1 ok p')
    from after_is_step_valid.IH have "I p" by simp
    with is_step_valid_state [OF after_is_step_valid.hyps(2)] have "I p'"
      using rtf by blast
    then show ?case by simp
  next
    case (after_value g p x e p')
    from value_state [OF after_value.hyps(2)] after_value.IH show ?case using ex by auto
  next
    case (after_compute_cached_stiffness g p)
    then show ?case by (simp add: stiff)
  next
    case (after_gradient g p x r p')
    from gradient_state [OF after_gradient.hyps(2)]
    obtain grad p1 p2 rhs0 where a: "gradient_no_rhs ctx g p x = Some (grad, p1)"
      and b: "p2 = p1 \<or> (\<exists>full. expand_input ctx p1 x = Some (full, p2))"
      and c: "current_rhs ctx p2 = Some (rhs0, p')" by blast
    have "I p1" using gradient_no_rhs_state [OF a] after_gradient.IH ex by auto
    then have "I p2" using b ex by auto
    then show ?case using c rhs by auto
  next
    case (after_gradient_no_rhs g p x r p')
    from gradient_no_rhs_state [OF after_gradient_no_rhs.hyps(2)] after_gradient_no_rhs.IH
    show ?case using ex by auto
  next
    case (after_hessian g p x h p')
    from hessian_state [OF after_hessian.hyps(2)]
    obtain h' where "hessian_full ctx g p x = Some (h', p')" by blast
    from hessian_full_state [OF this] after_hessian.IH show ?case using ex stiff by auto
  next
    case (after_hessian_full g p x h p')
    from hessian_full_state [OF after_hessian_full.hyps(2)] after_hessian_full.IH
    show ?case using ex stiff by auto
  qed
qed


lemma displaced_entries:
  assumes "displaced ctx full = Some pts"
  shows "length pts = length full div nat (dimension ctx)
    \<and> (i < length pts \<and> d < nat (dimension ctx) \<longrightarrow>
         pts ! i ! d = boundary_nodes_pos ctx ! i ! d + full ! (i * nat (dimension ctx) + d))"
proof -
  obtain reshaped where r: "reshape (dimension ctx) full = Some reshaped"
    and m: "mat_add (boundary_nodes_pos ctx) reshaped = Some pts"
    using assms by (auto simp: displaced_def split: Option.bind_splits)
  let ?n = "length full div nat (dimension ctx)"
  from r have rdef: "reshaped =
      map (\<lambda>i. map (\<lambda>d. full ! (i * nat (dimension ctx) + d)) [0..<nat (dimension ctx)]) [0..<?n]"
    by (simp add: reshape_def split: if_splits)
  from m have len: "length (boundary_nodes_pos ctx) = length reshaped"
    and rows: "list_all2 (\<lambda>a b. length a = length b) (boundary_nodes_pos ctx) reshaped"
    and pts: "pts = map2 (map2 (+)) (boundary_nodes_pos ctx) reshaped"
    by (simp_all add: mat_add_def split: if_splits)
  have lr: "length reshaped = ?n" by (simp add: rdef)
  have lp: "length pts = ?n" by (simp add: pts len lr)
  have "pts ! i ! d = boundary_nodes_pos ctx ! i ! d + full ! (i * nat (dimension ctx) + d)"
    if i: "i < length pts" and d: "d < nat (dimension ctx)"
  proof -
    have i': "i < ?n" using i lp by simp
    have ri: "reshaped ! i = map (\<lambda>d. full ! (i * nat (dimension ctx) + d)) [0..<nat (dimension ctx)]"
      using i' by (simp add: rdef)
    have "length (boundary_nodes_pos ctx ! i) = length (reshaped ! i)"
      using rows i' lr by (simp add: list_all2_conv_all_nth)
    then have lb: "length (boundary_nodes_pos ctx ! i) = nat (dimension ctx)" by (simp add: ri)
    have "pts ! i = map2 (+) (boundary_nodes_pos ctx ! i) (reshaped ! i)"
      using i' len lr by (simp add: pts)
    then show ?thesis using d lb by (simp add: ri)
  qed
  with lp show ?thesis by blast
qed



lemma raw_expand_full_size:
  assumes "(if int (length x) = reduced_size p then reduced_to_full ctx p x else Some (x, p)) = Some (f, p')"
  shows "full_size p' = full_size p \<and> reduced_size p' = reduced_size p"
  using assms by (auto split: if_splits dest!: reduced_to_full_state current_rhs_state)

lemma value_unfold:
  "value ctx g p x =
     do {
       (full, p1) \<leftarrow> expand_input ctx p x;
       i \<leftarrow> inertial_term ctx p1 full;
       b \<leftarrow> barrier_term ctx g full;
       Some (scaling_of p1 * (assemble_energy ctx full + rhs_compute_energy ctx full (cur_t p1))
               + i + scaling_of p1 * (100000000 * b), p1)
     }"
proof (cases "expand_input ctx p x")
  case None
  then show ?thesis by (simp add: value_def)
next
  case (Some a)
  obtain full p1 where a: "a = (full, p1)" by (cases a)
  show ?thesis
  proof (cases "is_time_dependent p1")
    case True
    then show ?thesis
      by (simp add: value_def Some a inertial_term_def barrier_term_def scaling_of_def
          algebra_simps split: Option.bind_split)
  next
    case False
    then show ?thesis
      by (simp add: value_def Some a inertial_term_def barrier_term_def scaling_of_def
          algebra_simps split: Option.bind_split)
  qed
qed


lemma current_rhs_cached:
  "current_rhs ctx p = Some (rhs, p') \<Longrightarrow> current_rhs ctx p' = Some (rhs, p')"
  by (frule current_rhs_state) (simp add: current_rhs_def)

lemma reduced_to_full_cached:
  assumes "reduced_to_full ctx p r = Some (x, p')"
  shows "reduced_to_full ctx p' r = Some (x, p')"
proof -
  from reduced_to_full_state [OF assms] obtain rhs where c: "current_rhs ctx p = Some (rhs, p')"
    and a: "reduced_to_full_aux (boundary_nodes ctx) (full_size p) (reduced_size p) r rhs = Some x"
    by blast
  from current_rhs_state [OF c] have "full_size p' = full_size p" "reduced_size p' = reduced_size p"
    by simp_all
  with current_rhs_cached [OF c] a show ?thesis by (simp add: reduced_to_full_def)
qed

lemma filter_same_length: "length (filter P xs) = length xs \<Longrightarrow> filter P xs = xs"
  by (metis filter_id_conv length_filter_less less_irrefl)

lemma full_to_reduced_aux_same_length:
  assumes "full_to_reduced_aux bn fs rs x = Some r" and "length r = length x"
  shows "r = x"
proof -
  from assms(1) have r: "r = map snd (filter (\<lambda>(i, v). i \<notin> set bn) (zip [0..<length x] x))"
    by (simp add: full_to_reduced_aux_def split: if_splits)
  with assms(2) have "length (filter (\<lambda>(i, v). i \<notin> set bn) (zip [0..<length x] x)) = length (zip [0..<length x] x)"
    by simp
  then have "filter (\<lambda>(i, v). i \<notin> set bn) (zip [0..<length x] x) = zip [0..<length x] x"
    by (rule filter_same_length)
  with r show ?thesis by simp
qed

lemma expand_input_not_reduced:
  "int (length x) \<noteq> reduced_size p \<Longrightarrow>
   expand_input ctx p x = (if int (length x) = full_size p then Some (x, p) else None)"
  by (simp add: expand_input_def)

lemma expand_input_reduced:
  "int (length r) = reduced_size p \<Longrightarrow> reduced_to_full ctx p r = Some (x, p') \<Longrightarrow>
   int (length x) = full_size p \<Longrightarrow> expand_input ctx p r = Some (x, p')"
  by (auto simp: expand_input_def dest!: reduced_to_full_state current_rhs_state)

lemma compute_cached_stiffness_cache:
  "compute_cached_stiffness ctx (p\<lparr>current_rhs_cache := c, rhs_computed := b\<rparr>)
   = (compute_cached_stiffness ctx p)\<lparr>current_rhs_cache := c, rhs_computed := b\<rparr>"
  by (simp add: compute_cached_stiffness_def)

lemma gradient_no_rhs_unfold:
  "gradient_no_rhs ctx g p x =
     do {
       (full, p1) \<leftarrow> expand_input ctx p x;
       grad1 \<leftarrow> gradient_at ctx g full;
       if int (length grad1) = full_size p1 then Some (grad1, p1) else None
     }"
proof (cases "expand_input ctx p x")
  case None
  then show ?thesis by (simp add: gradient_no_rhs_def)
next
  case (Some a)
  obtain full p1 where a: "a = (full, p1)" by (cases a)
  show ?thesis
    by (cases "disable_collision g"; cases "has_collision ctx")
       (simp_all add: gradient_no_rhs_def Some a gradient_at_def Let_def)
qed

lemma hessian_full_unfold:
  "hessian_full ctx g p x =
     do {
       (full, p1) \<leftarrow> expand_input ctx p x;
       h2 \<leftarrow> hessian_at ctx g (if is_linear_rhs ctx then compute_cached_stiffness ctx p1 else p1) full;
       if int (sp_rows h2) = full_size p1 \<and> int (sp_cols h2) = full_size p1
       then Some (h2, if is_linear_rhs ctx then compute_cached_stiffness ctx p1 else p1) else None
     }"
proof (cases "expand_input ctx p x")
  case None
  then show ?thesis by (simp add: hessian_full_def)
next
  case (Some a)
  obtain full p1 where a: "a = (full, p1)" by (cases a)
  have fs: "full_size (compute_cached_stiffness ctx p1) = full_size p1"
    by (simp add: compute_cached_stiffness_def)
  show ?thesis
    by (cases "is_linear_rhs ctx"; cases "disable_collision g"; cases "has_collision ctx")
       (simp_all add: hessian_full_def Some a hessian_at_def Let_def fs)
qed

lemma hessian_at_cache:
  "hessian_at ctx g (p\<lparr>current_rhs_cache := c, rhs_computed := b\<rparr>) full = hessian_at ctx g p full"
  by (simp add: hessian_at_def cong: if_cong)

lemma rhs_cache_from_set_bc:
  assumes "reachable ctx (g, p)" and "rhs_computed p"
  shows "\<exists>v. current_rhs_cache p = rhs_set_bc ctx v (cur_t p)"
proof -
  let ?I = "\<lambda>q. rhs_computed q \<longrightarrow> (\<exists>v. current_rhs_cache q = rhs_set_bc ctx v (cur_t q))"
  have "?I (snd (g, p))"
    using assms(1)
  proof (rule reachable_invariant)
    fix q r q'
    assume "?I q" and c: "current_rhs ctx q = Some (r, q')"
    show "?I q'"
    proof (cases "rhs_computed q")
      case True
      with c have "q' = q" by (simp add: current_rhs_def)
      with \<open>?I q\<close> show ?thesis by simp
    next
      case False
      with c show ?thesis
        by (auto simp: current_rhs_def Let_def split: Option.bind_splits if_splits)
    qed
  qed (auto simp: NLProblem_new_def init_timestep_def update_quantities_def
        compute_cached_stiffness_def Let_def split: option.splits if_splits)
  with assms(2) show ?thesis by simp
qed


subsection \<open>The sparse matrix cache\<close>

lemma positions_Suc: "positions ts n (Suc m) = positions ts n m @ col_positions ts n m"
  by (simp add: positions_def)

lemma set_col_positions:
  "set (col_positions ts n j) = {(i, j') . j' = j \<and> i < n \<and> (i, j) \<in> keys_of ts}"
  by (force simp: col_positions_def keys_of_def)

lemma set_positions:
  "set (positions ts n m) = {(i, j). i < n \<and> j < m \<and> (i, j) \<in> keys_of ts}"
  by (induction m) (auto simp: positions_Suc set_col_positions positions_def less_Suc_eq)

lemma distinct_col_positions: "distinct (col_positions ts n j)"
  by (simp add: col_positions_def distinct_map inj_on_def)

lemma distinct_positions: "distinct (positions ts n m)"
  by (induction m) (auto simp: positions_Suc distinct_col_positions set_positions set_col_positions positions_def)

lemma positions_prefix:
  "j \<le> m \<Longrightarrow> positions ts n m = positions ts n j @ concat (map (col_positions ts n) [j..<m])"
proof (induction m)
  case 0
  then show ?case by simp
next
  case (Suc m)
  show ?case
  proof (cases "j = Suc m")
    case True
    then show ?thesis by simp
  next
    case False
    with Suc.prems have "j \<le> m" by simp
    with Suc.IH show ?thesis by (simp add: positions_Suc)
  qed
qed

lemma positions_window:
  assumes "j < m"
  shows "positions ts n m = positions ts n j @ col_positions ts n j
           @ concat (map (col_positions ts n) [Suc j..<m])"
  using assms by (simp add: positions_prefix [of j m] upt_conv_Cons)

lemma length_positions_Suc:
  "length (positions ts n (Suc j)) = length (positions ts n j) + length (col_positions ts n j)"
  by (simp add: positions_Suc)

lemma window_nth:
  assumes "j < m" and "i < length (col_positions ts n j)"
  shows "positions ts n m ! (length (positions ts n j) + i) = col_positions ts n j ! i"
  using assms by (simp add: positions_window [OF assms(1)] nth_append)

lemma snd_col_positions: "q \<in> set (col_positions ts n j) \<Longrightarrow> snd q = j"
  by (auto simp: set_col_positions)

lemma setFromTriplets_assembled:
  "setFromTriplets n m ts = (if list_all (in_range n m) ts then Some (assembled ts n m) else None)"
  by (simp add: setFromTriplets_def assembled_def)

lemma length_positions_le:
  "j \<le> m \<Longrightarrow> length (positions ts n j) \<le> length (positions ts n m)"
  by (simp add: positions_prefix [of j m])

lemma outer_assembled:
  "j \<le> m \<Longrightarrow> outerIndex (assembled ts n m) ! j = length (positions ts n j)"
  by (simp add: assembled_def nth_map_upt del: upt_Suc)

lemma map_nth_upt: "map (\<lambda>i. f (xs ! i)) [0..<length xs] = map f xs"
  by (rule nth_equalityI) simp_all

lemma col_entries_assembled:
  assumes "j < m"
  shows "col_entries (assembled ts n m) j = map (entry_of ts) (col_positions ts n j)"
proof -
  let ?P = "positions ts n m"
  let ?C = "col_positions ts n j"
  let ?a = "length (positions ts n j)"
  have o1: "outerIndex (assembled ts n m) ! j = ?a" using assms by (simp add: outer_assembled)
  have o2: "outerIndex (assembled ts n m) ! Suc j = ?a + length ?C"
    using assms by (simp add: outer_assembled length_positions_Suc)
  have le: "?a + length ?C \<le> length ?P"
    using length_positions_le [of "Suc j" m ts n] assms by (simp add: length_positions_Suc)
  have "col_entries (assembled ts n m) j
      = map (\<lambda>k. (innerIndex (assembled ts n m) ! k, j, valuePtr (assembled ts n m) ! k))
          (map (\<lambda>i. i + ?a) [0..<length ?C])"
    by (simp add: col_entries_def o1 o2 map_add_upt add.commute)
  also have "\<dots> = map (\<lambda>i. entry_of ts (?C ! i)) [0..<length ?C]"
  proof (rule nth_equalityI)
    show "length (map (\<lambda>k. (innerIndex (assembled ts n m) ! k, j, valuePtr (assembled ts n m) ! k))
          (map (\<lambda>i. i + ?a) [0..<length ?C])) = length (map (\<lambda>i. entry_of ts (?C ! i)) [0..<length ?C])"
      by simp
  next
    fix i
    assume "i < length (map (\<lambda>k. (innerIndex (assembled ts n m) ! k, j, valuePtr (assembled ts n m) ! k))
          (map (\<lambda>i. i + ?a) [0..<length ?C]))"
    then have i: "i < length ?C" by simp
    then have k: "?a + i < length ?P" using le by simp
    have w: "?P ! (?a + i) = ?C ! i" using assms i by (rule window_nth)
    have sj: "snd (?C ! i) = j" by (rule snd_col_positions [OF nth_mem [OF i]])
    show "map (\<lambda>k. (innerIndex (assembled ts n m) ! k, j, valuePtr (assembled ts n m) ! k))
          (map (\<lambda>i. i + ?a) [0..<length ?C]) ! i = map (\<lambda>i. entry_of ts (?C ! i)) [0..<length ?C] ! i"
      using i k w sj by (simp add: assembled_def entry_of_def add.commute case_prod_beta)
  qed
  also have "\<dots> = map (entry_of ts) ?C" by (rule map_nth_upt)
  finally show ?thesis .
qed

lemma to_triplets_assembled:
  "to_triplets (assembled ts n m) = map (entry_of ts) (positions ts n m)"
proof -
  have "to_triplets (assembled ts n m) = concat (map (col_entries (assembled ts n m)) [0..<m])"
    by (simp add: to_triplets_def assembled_def)
  also have "map (col_entries (assembled ts n m)) [0..<m]
      = map (\<lambda>j. map (entry_of ts) (col_positions ts n j)) [0..<m]"
    by (rule map_cong) (simp_all add: col_entries_assembled)
  also have "concat \<dots> = map (entry_of ts) (positions ts n m)"
    by (simp add: positions_def map_concat comp_def)
  finally show ?thesis .
qed

lemma to_triplets_resize: "to_triplets (sp_resize n m) = []"
  by (simp add: to_triplets_def sp_resize_def col_entries_def nth_Cons' del: replicate_Suc)

lemma sum_list_absent:
  "x \<notin> set xs \<Longrightarrow> sum_list (map (\<lambda>q. if q = x then a else 0) xs) = (0::real)"
  by (induction xs) auto

lemma sum_list_single:
  "distinct xs \<Longrightarrow> x \<in> set xs \<Longrightarrow> sum_list (map (\<lambda>q. if q = x then a else 0) xs) = (a::real)"
  by (induction xs) (auto simp: sum_list_absent)

lemma keys_of_entries: "keys_of (map (entry_of ts) ps) = set ps"
  by (force simp: keys_of_def entry_of_def)

lemma col_positions_keys:
  assumes "\<And>i. i < n \<Longrightarrow> ((i, j) \<in> keys_of ts') = ((i, j) \<in> keys_of ts)"
  shows "col_positions ts' n j = col_positions ts n j"
  unfolding col_positions_def keys_of_def [symmetric]
  by (rule arg_cong [where f = "map (\<lambda>i. (i, j))"], rule filter_cong) (simp_all add: assms)

lemma positions_reassembled:
  assumes "j \<le> m"
  shows "positions (map (entry_of ts) (positions ts n m)) n j = positions ts n j"
proof -
  let ?ts' = "map (entry_of ts) (positions ts n m)"
  have h: "map (col_positions ?ts' n) [0..<j] = map (col_positions ts n) [0..<j]"
  proof (rule map_cong)
    fix c assume "c \<in> set [0..<j]"
    then have c: "c < m" using assms by simp
    show "col_positions ?ts' n c = col_positions ts n c"
      by (rule col_positions_keys) (simp add: keys_of_entries set_positions c)
  qed simp
  show ?thesis
    unfolding positions_def [of ?ts' n j] positions_def [of ts n j] h ..
qed

lemma triplet_sum_reassembled:
  assumes "(i, j) \<in> set (positions ts n m)"
  shows "triplet_sum (map (entry_of ts) (positions ts n m)) i j = triplet_sum ts i j"
proof -
  let ?ts' = "map (entry_of ts) (positions ts n m)"
  have h: "map (\<lambda>(r, c, v). if r = i \<and> c = j then v else 0) ?ts'
      = map (\<lambda>q. if q = (i, j) then triplet_sum ts i j else 0) (positions ts n m)"
    unfolding map_map by (rule map_cong) (auto simp: entry_of_def)
  have "triplet_sum ?ts' i j
      = sum_list (map (\<lambda>q. if q = (i, j) then triplet_sum ts i j else 0) (positions ts n m))"
    unfolding triplet_sum_def [of ?ts' i j] h ..
  also have "\<dots> = triplet_sum ts i j"
    using distinct_positions assms by (rule sum_list_single)
  finally show ?thesis .
qed

lemma assembled_reassembled:
  "assembled (map (entry_of ts) (positions ts n m)) n m = assembled ts n m"
proof -
  let ?ts' = "map (entry_of ts) (positions ts n m)"
  have p: "positions ?ts' n j = positions ts n j" if "j \<le> m" for j
    using that by (rule positions_reassembled)
  have o: "map (\<lambda>j. length (positions ?ts' n j)) [0..<Suc m]
      = map (\<lambda>j. length (positions ts n j)) [0..<Suc m]"
    by (rule map_cong) (simp_all add: p del: upt_Suc)
  have v: "map (\<lambda>(i, j). triplet_sum ?ts' i j) (positions ts n m)
      = map (\<lambda>(i, j). triplet_sum ts i j) (positions ts n m)"
    by (rule map_cong) (auto simp: triplet_sum_reassembled)
  show ?thesis
    unfolding assembled_def [of ?ts'] p [OF order_refl] o v
    by (simp add: assembled_def)
qed

lemma in_range_entries: "list_all (in_range n m) (map (entry_of ts) (positions ts n m))"
  by (auto simp: list_all_iff in_range_def entry_of_def set_positions)

lemma sp_add_zero_assembled:
  "sp_add (sp_resize n m) (assembled ts n m) = Some (assembled ts n m)"
proof -
  have "sp_add (sp_resize n m) (assembled ts n m)
      = setFromTriplets n m (map (entry_of ts) (positions ts n m))"
    by (simp add: sp_add_def to_triplets_resize to_triplets_assembled)
       (simp add: sp_resize_def assembled_def)
  then show ?thesis
    by (simp add: setFromTriplets_assembled in_range_entries assembled_reassembled)
qed

lemma mapping_col_zip:
  assumes "\<forall>k\<in>set ks. k < length inner \<and> inner ! k < length mp"
  shows "mapping_col inner i ks (mp, idx) =
     Some (map (\<lambda>r. mp ! r @ map (\<lambda>(k, x). (i, x))
                  (filter (\<lambda>(k, x). inner ! k = r) (zip ks [idx..<idx + length ks])))
             [0..<length mp], idx + length ks)"
  using assms
proof (induction ks arbitrary: mp idx)
  case Nil
  then show ?case by (simp add: map_nth)
next
  case (Cons k ks)
  let ?mp1 = "mp[inner ! k := mp ! (inner ! k) @ [(i, idx)]]"
  have pre: "\<forall>k\<in>set ks. k < length inner \<and> inner ! k < length ?mp1"
    using Cons.prems by simp
  have k: "k < length inner" "inner ! k < length mp" using Cons.prems by simp_all
  have z: "zip (k # ks) [idx..<idx + length (k # ks)]
      = (k, idx) # zip ks [Suc idx..<Suc idx + length ks]"
    by (simp add: upt_conv_Cons del: upt_Suc)
  have "map (\<lambda>r. ?mp1 ! r @ map (\<lambda>(k, x). (i, x))
                  (filter (\<lambda>(k, x). inner ! k = r) (zip ks [Suc idx..<Suc idx + length ks])))
             [0..<length ?mp1]
      = map (\<lambda>r. mp ! r @ map (\<lambda>(k, x). (i, x))
                  (filter (\<lambda>(k, x). inner ! k = r) (zip (k # ks) [idx..<idx + length (k # ks)])))
             [0..<length mp]"
    unfolding z by (rule map_cong) (auto simp: nth_list_update)
  with Cons.IH [OF pre, of "Suc idx"] k show ?case by simp
qed

lemma mapping_col_range:
  assumes "a \<le> b" and "b \<le> length inner" and "\<forall>k<b. inner ! k < length mp"
  shows "mapping_col inner i [a..<b] (mp, a) =
     Some (map (\<lambda>r. mp ! r @ map (\<lambda>k. (i, k)) (filter (\<lambda>k. inner ! k = r) [a..<b]))
             [0..<length mp], b)"
proof -
  have pre: "\<forall>k\<in>set [a..<b]. k < length inner \<and> inner ! k < length mp"
    using assms by auto
  have z: "zip [a..<b] [a..<a + length [a..<b]] = map (\<lambda>k. (k, k)) [a..<b]"
    using assms(1) by (simp add: zip_same_conv_map)
  show ?thesis
    unfolding mapping_col_zip [OF pre] z
    using assms(1) by (simp add: filter_map comp_def)
qed

lemma mapping_rows_append:
  "mapping_rows outer inner (xs @ ys) st =
     (case mapping_rows outer inner xs st of None \<Rightarrow> None
      | Some st' \<Rightarrow> mapping_rows outer inner ys st')"
  by (induction xs arbitrary: st) (auto split: option.splits)

lemma fst_positions_less:
  "k < length (positions ts n m) \<Longrightarrow> fst (positions ts n m ! k) < n"
  using nth_mem [of k "positions ts n m"] by (auto simp: set_positions)

lemma snd_positions_window:
  assumes "j < m" and "length (positions ts n j) \<le> k" and "k < length (positions ts n (Suc j))"
  shows "snd (positions ts n m ! k) = j"
proof -
  let ?a = "length (positions ts n j)"
  have i: "k - ?a < length (col_positions ts n j)"
    using assms(2,3) by (simp add: length_positions_Suc)
  have "positions ts n m ! (?a + (k - ?a)) = col_positions ts n j ! (k - ?a)"
    using assms(1) i by (rule window_nth)
  moreover have "snd (col_positions ts n j ! (k - ?a)) = j"
    by (rule snd_col_positions [OF nth_mem [OF i]])
  ultimately show ?thesis using assms(2) by simp
qed

lemma mapping_rows_assembled:
  assumes "m \<le> n"
  shows "mapping_rows (outerIndex (assembled ts n n)) (innerIndex (assembled ts n n)) [0..<m]
           (replicate n [], 0)
         = Some (map (slots_of ts n (length (positions ts n m))) [0..<n],
                 length (positions ts n m))"
  using assms
proof (induction m)
  case 0
  show ?case by (simp add: slots_of_def positions_def map_replicate_const)
next
  case (Suc m)
  let ?A = "assembled ts n n"
  let ?P = "positions ts n n"
  let ?a = "length (positions ts n m)"
  let ?b = "length (positions ts n (Suc m))"
  let ?M = "map (slots_of ts n ?a) [0..<n]"
  from Suc.prems have m: "m < n" by simp
  have IH: "mapping_rows (outerIndex ?A) (innerIndex ?A) [0..<m] (replicate n [], 0) = Some (?M, ?a)"
    using Suc.IH m by simp
  have lo: "length (outerIndex ?A) = Suc n" by (simp add: assembled_def)
  have oa: "outerIndex ?A ! m = ?a" using m by (simp add: outer_assembled)
  have ob: "outerIndex ?A ! Suc m = ?b" using m by (simp add: outer_assembled)
  have ab: "?a \<le> ?b" by (simp add: length_positions_Suc)
  have bP: "?b \<le> length ?P" using m by (simp add: length_positions_le)
  have inner: "innerIndex ?A ! k = fst (?P ! k)" if "k < ?b" for k
    using that bP by (simp add: assembled_def)
  have col: "mapping_col (innerIndex ?A) m [?a..<?b] (?M, ?a) =
      Some (map (\<lambda>r. ?M ! r @ map (\<lambda>k. (m, k)) (filter (\<lambda>k. innerIndex ?A ! k = r) [?a..<?b]))
              [0..<length ?M], ?b)"
  proof (rule mapping_col_range [OF ab])
    show "?b \<le> length (innerIndex ?A)" using bP by (simp add: assembled_def)
    show "\<forall>k<?b. innerIndex ?A ! k < length ?M"
    proof (intro allI impI)
      fix k assume k: "k < ?b"
      then have "k < length ?P" using bP by simp
      then show "innerIndex ?A ! k < length ?M"
        using inner [OF k] fst_positions_less [of k ts n n] by simp
    qed
  qed
  have eq: "map (\<lambda>r. ?M ! r @ map (\<lambda>k. (m, k)) (filter (\<lambda>k. innerIndex ?A ! k = r) [?a..<?b]))
              [0..<length ?M] = map (slots_of ts n ?b) [0..<n]"
  proof (rule nth_equalityI)
    show "length (map (\<lambda>r. ?M ! r @ map (\<lambda>k. (m, k)) (filter (\<lambda>k. innerIndex ?A ! k = r) [?a..<?b]))
              [0..<length ?M]) = length (map (slots_of ts n ?b) [0..<n])"
      by simp
  next
    fix r
    assume "r < length (map (\<lambda>r. ?M ! r @ map (\<lambda>k. (m, k)) (filter (\<lambda>k. innerIndex ?A ! k = r) [?a..<?b]))
              [0..<length ?M])"
    then have r: "r < n" by simp
    have f: "filter (\<lambda>k. innerIndex ?A ! k = r) [?a..<?b] = filter (\<lambda>k. fst (?P ! k) = r) [?a..<?b]"
      by (rule filter_cong) (simp_all add: inner)
    have g: "map (\<lambda>k. (m, k)) (filter (\<lambda>k. fst (?P ! k) = r) [?a..<?b])
        = map (\<lambda>k. (snd (?P ! k), k)) (filter (\<lambda>k. fst (?P ! k) = r) [?a..<?b])"
      by (rule map_cong) (auto simp: snd_positions_window [OF m])
    have u: "[0..<?b] = [0..<?a] @ [?a..<?b]"
      using ab by (metis le0 le_Suc_ex upt_add_eq_append)
    have "slots_of ts n ?b r = slots_of ts n ?a r
        @ map (\<lambda>k. (snd (?P ! k), k)) (filter (\<lambda>k. fst (?P ! k) = r) [?a..<?b])"
      unfolding slots_of_def u by simp
    with r show "map (\<lambda>r. ?M ! r @ map (\<lambda>k. (m, k)) (filter (\<lambda>k. innerIndex ?A ! k = r) [?a..<?b]))
              [0..<length ?M] ! r = map (slots_of ts n ?b) [0..<n] ! r"
      by (simp add: f g)
  qed
  have col': "mapping_col (innerIndex ?A) m [?a..<?b] (?M, ?a)
      = Some (map (slots_of ts n ?b) [0..<n], ?b)"
    unfolding col eq ..
  have u: "[0..<Suc m] = [0..<m] @ [m]" by simp
  show ?case
    unfolding u mapping_rows_append IH
    using m by (simp add: lo oa ob col' del: upt_Suc)
qed

lemma add_scan_result:
  assumes "\<forall>p\<in>set L. snd p < length vals" and "distinct (map snd L)"
  shows "\<exists>vals'. add_scan L c v vals found = Some (vals', found \<or> c \<in> fst ` set L)
      \<and> length vals' = length vals
      \<and> (\<forall>k<length vals. vals' ! k = vals ! k + (if (c, k) \<in> set L then v else 0))"
  using assms
proof (induction L arbitrary: vals found)
  case Nil
  then show ?case by simp
next
  case (Cons p ps)
  show ?case
  proof (cases "fst p = c")
    case True
    let ?vals1 = "vals[snd p := vals ! snd p + v]"
    have sp: "snd p < length vals" using Cons.prems(1) by simp
    have pre: "\<forall>q\<in>set ps. snd q < length ?vals1" using Cons.prems(1) by simp
    have d: "distinct (map snd ps)" using Cons.prems(2) by simp
    from Cons.IH [OF pre d, of True] obtain vals' where
      s: "add_scan ps c v ?vals1 True = Some (vals', True \<or> c \<in> fst ` set ps)"
      and l: "length vals' = length ?vals1"
      and n: "\<forall>k<length ?vals1. vals' ! k = ?vals1 ! k + (if (c, k) \<in> set ps then v else 0)"
      by blast
    have notin: "(c, snd p) \<notin> set ps"
      using Cons.prems(2) by (auto simp: image_iff)
    have "vals' ! k = vals ! k + (if (c, k) \<in> set (p # ps) then v else 0)" if "k < length vals" for k
    proof (cases "k = snd p")
      case True
      with n that \<open>fst p = c\<close> notin show ?thesis
        by (cases p) (auto simp: nth_list_update)
    next
      case False
      with n that \<open>fst p = c\<close> show ?thesis
        by (cases p) (auto simp: nth_list_update)
    qed
    with s l True sp show ?thesis by simp
  next
    case False
    have pre: "\<forall>q\<in>set ps. snd q < length vals" using Cons.prems(1) by simp
    have d: "distinct (map snd ps)" using Cons.prems(2) by simp
    from Cons.IH [OF pre d, of found] obtain vals' where
      s: "add_scan ps c v vals found = Some (vals', found \<or> c \<in> fst ` set ps)"
      and l: "length vals' = length vals"
      and n: "\<forall>k<length vals. vals' ! k = vals ! k + (if (c, k) \<in> set ps then v else 0)"
      by blast
    have "(c, k) \<in> set (p # ps) \<longleftrightarrow> (c, k) \<in> set ps" for k
      using False by (cases p) auto
    with s l n False show ?thesis by (cases p) auto
  qed
qed

lemma slots_of_snd: "p \<in> set (slots_of ts n b r) \<Longrightarrow> snd p < b"
  by (auto simp: slots_of_def)

lemma slots_of_distinct: "distinct (map snd (slots_of ts n b r))"
  by (simp add: slots_of_def comp_def)

lemma slots_of_mem:
  "(c, k) \<in> set (slots_of ts n b r) \<longleftrightarrow> k < b \<and> positions ts n n ! k = (r, c)"
  by (auto simp: slots_of_def prod_eq_iff)

lemma slots_of_found:
  assumes "(r, c) \<in> set (positions ts n n)"
  shows "c \<in> fst ` set (slots_of ts n (length (positions ts n n)) r)"
proof -
  from assms obtain k where "k < length (positions ts n n)" and "positions ts n n ! k = (r, c)"
    by (auto simp: in_set_conv_nth)
  then have "(c, k) \<in> set (slots_of ts n (length (positions ts n n)) r)"
    by (simp add: slots_of_mem)
  then show ?thesis by force
qed

lemma add_value_warm:
  assumes mp: "c_mapping c = map (slots_of ts n (length (positions ts n n))) [0..<n]"
    and lv: "length (c_values c) = length (positions ts n n)"
    and r: "r < n" and key: "(r, cc) \<in> set (positions ts n n)"
  shows "add_value c r cc v =
     Some (c\<lparr>c_values := map (\<lambda>k. c_values c ! k
                 + (if positions ts n n ! k = (r, cc) then v else 0))
               [0..<length (positions ts n n)]\<rparr>)"
proof -
  let ?P = "positions ts n n"
  let ?L = "slots_of ts n (length ?P) r"
  have ne: "c_mapping c \<noteq> []" using mp r by auto
  have row: "c_mapping c ! r = ?L" using mp r by simp
  have pre: "\<forall>p\<in>set ?L. snd p < length (c_values c)"
    using lv by (auto dest: slots_of_snd)
  from add_scan_result [OF pre slots_of_distinct, of cc v False] obtain vals' where
    s: "add_scan ?L cc v (c_values c) False = Some (vals', False \<or> cc \<in> fst ` set ?L)"
    and l: "length vals' = length (c_values c)"
    and n: "\<forall>k<length (c_values c). vals' ! k = c_values c ! k + (if (cc, k) \<in> set ?L then v else 0)"
    by blast
  have found: "cc \<in> fst ` set ?L" using key by (rule slots_of_found)
  have "vals' = map (\<lambda>k. c_values c ! k + (if ?P ! k = (r, cc) then v else 0)) [0..<length ?P]"
    by (rule nth_equalityI) (use l lv n in \<open>auto simp: slots_of_mem\<close>)
  with s found ne row r mp show ?thesis
    by (simp add: add_value_def)
qed

lemma triplet_sum_Cons:
  "triplet_sum ((r, c, v) # ts) i j = (if r = i \<and> c = j then v else 0) + triplet_sum ts i j"
  by (simp add: triplet_sum_def)

lemma add_values_warm:
  assumes mp: "c_mapping c = map (slots_of ts n (length (positions ts n n))) [0..<n]"
    and lv: "length (c_values c) = length (positions ts n n)"
    and keys: "list_all (\<lambda>(r, cc, v). r < n \<and> (r, cc) \<in> set (positions ts n n)) ts'"
  shows "add_values c ts' =
     Some (c\<lparr>c_values := map (\<lambda>k. c_values c ! k
                 + triplet_sum ts' (fst (positions ts n n ! k)) (snd (positions ts n n ! k)))
               [0..<length (positions ts n n)]\<rparr>)"
  using assms
proof (induction ts' arbitrary: c)
  case Nil
  have "map (\<lambda>k. c_values c ! k) [0..<length (c_values c)] = c_values c" by (rule map_nth)
  with Nil show ?case by (simp add: triplet_sum_def)
next
  case (Cons tr ts')
  obtain r cc v where tr: "tr = (r, cc, v)" by (cases tr)
  let ?P = "positions ts n n"
  let ?c1 = "c\<lparr>c_values := map (\<lambda>k. c_values c ! k + (if ?P ! k = (r, cc) then v else 0))
               [0..<length ?P]\<rparr>"
  from Cons.prems(3) tr have r: "r < n" and key: "(r, cc) \<in> set ?P"
    and rest: "list_all (\<lambda>(r, cc, v). r < n \<and> (r, cc) \<in> set ?P) ts'" by simp_all
  have a: "add_value c r cc v = Some ?c1"
    using Cons.prems(1,2) r key by (rule add_value_warm)
  have mp1: "c_mapping ?c1 = map (slots_of ts n (length ?P)) [0..<n]" using Cons.prems(1) by simp
  have lv1: "length (c_values ?c1) = length ?P" by simp
  have "map (\<lambda>k. c_values ?c1 ! k + triplet_sum ts' (fst (?P ! k)) (snd (?P ! k))) [0..<length ?P]
      = map (\<lambda>k. c_values c ! k + triplet_sum (tr # ts') (fst (?P ! k)) (snd (?P ! k))) [0..<length ?P]"
    by (rule map_cong) (auto simp: tr triplet_sum_Cons prod_eq_iff)
  with Cons.IH [OF mp1 lv1 rest] a show ?case by (simp add: tr)
qed

lemma add_values_cold:
  "c_mapping c = [] \<Longrightarrow> add_values c ts = Some (c\<lparr>c_entries := c_entries c @ ts\<rparr>)"
proof (induction ts arbitrary: c)
  case Nil
  then show ?case by simp
next
  case (Cons tr ts)
  obtain i j v where tr: "tr = (i, j, v)" by (cases tr)
  have "c_mapping (c\<lparr>c_entries := c_entries c @ [(i, j, v)]\<rparr>) = []" using Cons.prems by simp
  from Cons.IH [OF this] Cons.prems show ?case by (simp add: tr add_value_def)
qed

lemma positions_keys_in_range:
  assumes "list_all (in_range n n) ts"
  shows "list_all (\<lambda>(r, cc, v). r < n \<and> (r, cc) \<in> set (positions ts n n)) ts"
  using assms
  by (force simp: list_all_iff in_range_def set_positions keys_of_def)

lemma valuePtr_assembled_nth:
  "valuePtr (assembled ts n m)
   = map (\<lambda>k. 0 + triplet_sum ts (fst (positions ts n m ! k)) (snd (positions ts n m ! k)))
       [0..<length (positions ts n m)]"
  by (rule nth_equalityI) (simp_all add: assembled_def case_prod_beta)

section \<open>The claims\<close>



text \<open>
  Claim C2. The flag \<^verbatim>\<open>disable_collision\<close> starts true and no member function writes
  it, so in every configuration a program reaches it is true; there \<^verbatim>\<open>is_step_valid\<close>
  returns true and leaves the object as it is, and \<^verbatim>\<open>value\<close>, \<^verbatim>\<open>gradient_no_rhs\<close> and
  \<^verbatim>\<open>hessian_full\<close> return what they return for any other collision flag and any other
  contact routines: no barrier term enters them.
\<close>

theorem contact_branches_never_run:
  assumes "reachable ctx (g, p)"
  shows "disable_collision g
    \<and> is_step_valid ctx g p x0 x1 = Some (True, p)
    \<and> value (with_contact_of ctx b other) g p x = value ctx g p x
    \<and> gradient_no_rhs (with_contact_of ctx b other) g p x = gradient_no_rhs ctx g p x
    \<and> hessian_full (with_contact_of ctx b other) g p x = hessian_full ctx g p x"
proof -
  have g: "disable_collision g" using reachable_flag [OF assms] by simp
  then show ?thesis
    by (simp add: value_contact gradient_no_rhs_contact hessian_full_contact is_step_valid_def)
qed

theorem contact_branches_never_run_witness:
  "disable_collision initial_globals
    \<and> is_step_valid example_env initial_globals example_problem [1] [0, 1] = Some (True, example_problem)
    \<and> value (with_contact_of example_env False example_env) initial_globals example_problem [5, 1]
        = value example_env initial_globals example_problem [5, 1]"
  using contact_branches_never_run [OF example_reachable, of "[1]" "[0, 1]" False example_env "[5, 1]"]
  by simp

text \<open>
  Claim C3, amended. A full-length vector \<open>x\<close> and its reduced projection give the same
  energy, the same gradient and the same reduced Hessian provided \<open>x\<close> carries at its
  boundary indices the values that the expansion restores there, that is, provided
  expanding the projection gives \<open>x\<close> back. The functions dispatch on the length of
  the input and compute on the expanded vector.
\<close>

theorem input_size_transparency:
  assumes len: "int (length x) = full_size p"
    and red: "full_to_reduced ctx p x = Some r"
    and exp: "reduced_to_full ctx p r = Some (x, p')"
  shows "map_option fst (value ctx g p r) = map_option fst (value ctx g p x)
    \<and> gradient ctx g p r = gradient ctx g p x
    \<and> map_option fst (hessian ctx g p r) = map_option fst (hessian ctx g p x)"
proof (cases "int (length x) = reduced_size p")
  case True
  from reduced_to_full_state [OF exp] have "int (length r) = reduced_size p"
    by (auto simp: reduced_to_full_aux_def split: if_splits)
  with True have "length r = length x" by simp
  with red have "r = x" by (simp add: full_to_reduced_def full_to_reduced_aux_same_length)
  then show ?thesis by simp
next
  case False
  from reduced_to_full_state [OF exp] obtain rhs where c: "current_rhs ctx p = Some (rhs, p')"
    and lr: "int (length r) = reduced_size p"
    by (auto simp: reduced_to_full_aux_def split: if_splits)
  note p' = current_rhs_state [OF c]
  have ex: "expand_input ctx p x = Some (x, p)" using False len by (simp add: expand_input_not_reduced)
  have er: "expand_input ctx p r = Some (x, p')" using lr exp len by (rule expand_input_reduced)
  have lr': "int (length r) = reduced_size p'" using lr p' by simp
  have len': "int (length x) = full_size p'" using len p' by simp
  have er': "expand_input ctx p' r = Some (x, p')"
    using lr' reduced_to_full_cached [OF exp] len' by (rule expand_input_reduced)
  have c': "current_rhs ctx p' = Some (rhs, p')" using c by (rule current_rhs_cached)
  have fld: "full_size p' = full_size p" "reduced_size p' = reduced_size p"
    "is_time_dependent p' = is_time_dependent p" "dt p' = dt p" "cur_t p' = cur_t p"
    "x_prev p' = x_prev p" "v_prev p' = v_prev p"
    by (simp_all add: p')
  have it: "inertial_term ctx p' x = inertial_term ctx p x"
    by (simp add: inertial_term_def fld cong: if_cong)
  have sc: "scaling_of p' = scaling_of p" by (simp add: scaling_of_def fld)
  have v: "map_option fst (value ctx g p r) = map_option fst (value ctx g p x)"
    by (cases "inertial_term ctx p x"; cases "barrier_term ctx g x")
       (simp_all add: value_unfold ex er it sc fld)
  have gn: "gradient_no_rhs ctx g p r = map_option (\<lambda>(a, q). (a, p')) (gradient_no_rhs ctx g p x)"
    by (cases "gradient_at ctx g x") (simp_all add: gradient_no_rhs_unfold ex er fld)
  have gx: "gradient_no_rhs ctx g p x = Some (a, q) \<Longrightarrow> q = p" for a q
    using gradient_no_rhs_state [of ctx g p x a q] ex by simp
  have gr: "gradient ctx g p r = gradient ctx g p x"
  proof (cases "gradient_no_rhs ctx g p x")
    case None
    then show ?thesis by (simp add: gradient_def gn)
  next
    case (Some a)
    obtain grad q where a: "a = (grad, q)" by (cases a)
    with Some gx have q: "q = p" by simp
    show ?thesis
      by (cases "is_time_dependent p")
         (simp_all add: gradient_def gn Some a q ex er' c c' fld full_to_reduced_def)
  qed
  have hf: "hessian_full ctx g p r
      = map_option (\<lambda>(h, q). (h, q\<lparr>current_rhs_cache := rhs, rhs_computed := True\<rparr>))
          (hessian_full ctx g p x)"
  proof (cases "is_linear_rhs ctx")
    case True
    show ?thesis
      unfolding hessian_full_unfold
      by (cases "hessian_at ctx g (compute_cached_stiffness ctx p) x")
         (simp_all add: ex er True p' compute_cached_stiffness_cache hessian_at_cache)
  next
    case False
    show ?thesis
      unfolding hessian_full_unfold
      by (cases "hessian_at ctx g p x")
         (simp_all add: ex er False p' hessian_at_cache)
  qed
  have h: "map_option fst (hessian ctx g p r) = map_option fst (hessian ctx g p x)"
  proof (cases "hessian_full ctx g p x")
    case None
    then show ?thesis by (simp add: hessian_def hf)
  next
    case (Some a)
    obtain tmp q where a: "a = (tmp, q)" by (cases a)
    have "eliminate_boundary ctx (q\<lparr>current_rhs_cache := rhs, rhs_computed := True\<rparr>) tmp
        = eliminate_boundary ctx q tmp"
      by (simp add: eliminate_boundary_def cong: if_cong split: prod.splits)
    then show ?thesis
      by (cases "eliminate_boundary ctx q tmp") (simp_all add: hessian_def hf Some a)
  qed
  from v gr h show ?thesis by simp
qed

theorem input_size_transparency_witness:
  "map_option fst (value example_env initial_globals example_problem [1])
     = map_option fst (value example_env initial_globals example_problem [0, 1])
   \<and> gradient example_env initial_globals example_problem [1]
     = gradient example_env initial_globals example_problem [0, 1]
   \<and> map_option fst (hessian example_env initial_globals example_problem [1])
     = map_option fst (hessian example_env initial_globals example_problem [0, 1])"
proof -
  have a: "int (length [0, 1 :: real]) = full_size example_problem"
    by (simp add: example_problem_def)
  have b: "full_to_reduced example_env example_problem [0, 1] = Some [1]"
    by code_simp
  have c: "reduced_to_full example_env example_problem [1] = Some ([0, 1], example_problem_rhs)"
    by code_simp
  show ?thesis using input_size_transparency [OF a b c] .
qed

text \<open>
  Without that proviso the claim fails: the full vector \<open>[5, 1]\<close> has the reduced
  projection \<open>[1]\<close>, whose expansion is \<open>[0, 1]\<close> (the prescribed value at the
  boundary index), and the two energies are 52 and 2.
\<close>

theorem input_size_transparency_counterexample:
  "full_to_reduced example_env example_problem [5, 1] = Some [1]
   \<and> value example_env initial_globals example_problem [5, 1] = Some (52, example_problem)
   \<and> value example_env initial_globals example_problem [1] = Some (2, example_problem_rhs)"
  by code_simp

text \<open>
  Claim C4. For every list of triplets inside an \<open>n \<times> n\<close> matrix (\<open>n > 0\<close>), for
  instance a pattern of four nodes and six non-zeros: queue the triplets in a fresh cache,
  call \<^verbatim>\<open>get_matrix(true)\<close>, call \<^verbatim>\<open>set_zero()\<close>, repeat the same \<^verbatim>\<open>add_value\<close> calls
  and call \<^verbatim>\<open>get_matrix()\<close>. Every step succeeds, and both calls of \<^verbatim>\<open>get_matrix\<close>
  return the matrix that direct assembly of the triplets gives, structure and values.
  The second call builds it from the value buffer and the index arrays recorded by the
  first, which are unchanged, and leaves the value buffer filled with zeros and the
  structure as it was.
\<close>

theorem cache_replay:
  assumes "list_all (in_range n n) ts" and "0 < n"
  shows "\<exists>A c1 c2 c4 c5.
      setFromTriplets n n ts = Some A
    \<and> add_values (SpareMatrixCache_new n) ts = Some c1
    \<and> c_mapping c1 = [] \<and> c_entries c1 = ts
    \<and> get_matrix c1 True = Some (A, c2)
    \<and> c_mapping c2 \<noteq> []
    \<and> add_values (set_zero c2) ts = Some c4
    \<and> c_entries c4 = []
    \<and> get_matrix c4 False = Some (A, c5)
    \<and> A = \<lparr>sp_rows = c_size c4, sp_cols = c_size c4, outerIndex = c_outer_index c4,
           innerIndex = c_inner_index c4, valuePtr = c_values c4\<rparr>
    \<and> c_mapping c4 = c_mapping c2 \<and> c_inner_index c4 = c_inner_index c2
    \<and> c_outer_index c4 = c_outer_index c2
    \<and> c_values c5 = replicate (nonZeros A) 0
    \<and> c_mapping c5 = c_mapping c2 \<and> c_inner_index c5 = c_inner_index c2
    \<and> c_outer_index c5 = c_outer_index c2 \<and> c_size c5 = c_size c2"
proof -
  let ?A = "assembled ts n n"
  let ?P = "positions ts n n"
  let ?nnz = "length ?P"
  let ?mp = "map (slots_of ts n ?nnz) [0..<n]"
  let ?c0 = "SpareMatrixCache_new n"
  let ?c1 = "?c0\<lparr>c_entries := ts\<rparr>"
  let ?c2 = "\<lparr>c_size = n, c_tmp = setZero ?A, c_mat = ?A, c_entries = [], c_mapping = ?mp,
             c_inner_index = innerIndex ?A, c_outer_index = outerIndex ?A,
             c_values = replicate ?nnz 0\<rparr>"
  let ?c1p = "\<lparr>c_size = n, c_tmp = setZero ?A, c_mat = ?A, c_entries = [], c_mapping = [],
             c_inner_index = [], c_outer_index = [], c_values = []\<rparr>"
  let ?c3 = "set_zero ?c2"
  let ?c4 = "?c3\<lparr>c_values := valuePtr ?A\<rparr>"
  let ?c5 = "?c4\<lparr>c_mat := ?A, c_values := replicate ?nnz 0\<rparr>"
  have direct: "setFromTriplets n n ts = Some ?A"
    using assms(1) by (simp add: setFromTriplets_assembled)
  have cold: "add_values ?c0 ts = Some ?c1"
    using add_values_cold [of ?c0 ts] by (simp add: SpareMatrixCache_new_def)
  have nz: "nonZeros ?A = ?nnz" by (simp add: nonZeros_def assembled_def)
  have li: "length (innerIndex ?A) = ?nnz" by (simp add: assembled_def)
  have lo: "length (outerIndex ?A) = Suc n" by (simp add: assembled_def)
  have rows: "sp_rows ?A = n" "sp_cols ?A = n" by (simp_all add: assembled_def)
  have mpne: "?mp \<noteq> []" using assms(2) by simp
  have c0: "c_tmp ?c0 = sp_resize n n" "c_mat ?c0 = sp_resize n n" "c_mapping ?c0 = []"
    by (simp_all add: SpareMatrixCache_new_def)
  have rz: "sp_rows (sp_resize n n) = n" "sp_cols (sp_resize n n) = n"
    by (simp_all add: sp_resize_def)
  have pr: "prune ?c1 = Some ?c1p"
    by (simp add: prune_def c0 rz direct sp_add_zero_assembled)
       (simp add: SpareMatrixCache_new_def)
  have cm: "compute_mapping_of ?c1p = Some ?c2"
    by (simp add: compute_mapping_of_def Let_def nz li lo rows
        mapping_rows_assembled [OF order_refl])
  have g1: "get_matrix ?c1 True = Some (?A, ?c2)"
    by (simp add: get_matrix_def pr cm)
  have mp3: "c_mapping ?c3 = map (slots_of ts n ?nnz) [0..<n]" by (simp add: set_zero_def)
  have lv3: "length (c_values ?c3) = ?nnz" by (simp add: set_zero_def)
  have "add_values ?c3 ts =
     Some (?c3\<lparr>c_values := map (\<lambda>k. c_values ?c3 ! k
                 + triplet_sum ts (fst (?P ! k)) (snd (?P ! k))) [0..<?nnz]\<rparr>)"
    using mp3 lv3 positions_keys_in_range [OF assms(1)] by (rule add_values_warm)
  also have "map (\<lambda>k. c_values ?c3 ! k + triplet_sum ts (fst (?P ! k)) (snd (?P ! k))) [0..<?nnz]
      = valuePtr ?A"
    unfolding valuePtr_assembled_nth by (rule map_cong) (simp_all add: set_zero_def)
  finally have warm: "add_values ?c3 ts = Some ?c4" .
  have A: "?A = \<lparr>sp_rows = n, sp_cols = n, outerIndex = outerIndex ?A,
           innerIndex = innerIndex ?A, valuePtr = valuePtr ?A\<rparr>"
    by (simp add: assembled_def)
  have g2: "get_matrix ?c4 False = Some (?A, ?c5)"
    using mpne by (simp add: get_matrix_def prune_def set_zero_def A [symmetric])
                   (simp add: assembled_def)
  have s4: "c_size ?c4 = n" "c_outer_index ?c4 = outerIndex ?A" "c_inner_index ?c4 = innerIndex ?A"
    "c_values ?c4 = valuePtr ?A" "c_mapping ?c4 = ?mp"
    by (simp_all add: set_zero_def)
  have rebuilt: "?A = \<lparr>sp_rows = c_size ?c4, sp_cols = c_size ?c4, outerIndex = c_outer_index ?c4,
           innerIndex = c_inner_index ?c4, valuePtr = c_values ?c4\<rparr>"
    unfolding s4 by (rule A)
  have s5: "c_values ?c5 = replicate (nonZeros ?A) 0" "c_mapping ?c5 = ?mp"
    "c_inner_index ?c5 = innerIndex ?A" "c_outer_index ?c5 = outerIndex ?A" "c_size ?c5 = n"
    by (simp_all add: set_zero_def nz)
  have s2: "c_mapping ?c2 = ?mp" "c_inner_index ?c2 = innerIndex ?A"
    "c_outer_index ?c2 = outerIndex ?A" "c_size ?c2 = n"
    by simp_all
  have s1: "c_mapping ?c1 = []" "c_entries ?c1 = ts"
    by (simp_all add: SpareMatrixCache_new_def)
  have ne2: "c_mapping ?c2 \<noteq> []" using mpne by simp
  have e4: "c_entries ?c4 = []" by (simp add: set_zero_def)
  show ?thesis
    apply (rule exI [of _ ?A], rule exI [of _ ?c1], rule exI [of _ ?c2], rule exI [of _ ?c4],
        rule exI [of _ ?c5])
    apply (intro conjI)
    apply (rule direct, rule cold, rule s1, rule s1, rule g1, rule ne2, rule warm, rule e4,
        rule g2, rule rebuilt)
    apply (simp_all only: s4 s5 s2)
    done
qed

theorem cache_replay_witness:
  "Option.bind (add_values (SpareMatrixCache_new 4) reference_triplets)
     (\<lambda>c1. Option.bind (get_matrix c1 True)
       (\<lambda>(A, c2). Option.bind (add_values (set_zero c2) reference_triplets)
         (\<lambda>c4. map_option fst (get_matrix c4 False))))
   = setFromTriplets 4 4 reference_triplets
   \<and> setFromTriplets 4 4 reference_triplets
     = Some \<lparr>sp_rows = 4, sp_cols = 4, outerIndex = [0, 2, 4, 5, 6],
              innerIndex = [0, 1, 0, 1, 2, 3], valuePtr = [2, - 1, - 1, 2, 3, 4]\<rparr>"
proof -
  have a: "list_all (in_range 4 4) reference_triplets"
    by (simp add: reference_triplets_def in_range_def)
  from cache_replay [OF a] obtain A c1 c2 c4 c5 where
    "setFromTriplets 4 4 reference_triplets = Some A"
    "add_values (SpareMatrixCache_new 4) reference_triplets = Some c1"
    "get_matrix c1 True = Some (A, c2)"
    "add_values (set_zero c2) reference_triplets = Some c4"
    "get_matrix c4 False = Some (A, c5)"
    by auto
  moreover have "setFromTriplets 4 4 reference_triplets
     = Some \<lparr>sp_rows = 4, sp_cols = 4, outerIndex = [0, 2, 4, 5, 6],
              innerIndex = [0, 1, 0, 1, 2, 3], valuePtr = [2, - 1, - 1, 2, 3, 4]\<rparr>"
    by code_simp
  ultimately show ?thesis by simp
qed



text \<open>
  Claim C6. \<^verbatim>\<open>is_step_valid(x0, x1)\<close> returns true, and changes nothing, when the global
  flag disables contact or the collision flag of the state is false. Otherwise it
  expands both end points, turns each into one point per node displaced from the rest
  position of the boundary nodes, and returns true exactly when the contact library
  reports that the step between the two is not collision free.
\<close>

theorem is_step_valid_result:
  "(disable_collision g \<or> \<not> has_collision ctx \<longrightarrow> is_step_valid ctx g p x0 x1 = Some (True, p))
   \<and> (\<not> disable_collision g \<and> has_collision ctx \<longrightarrow>
        is_step_valid ctx g p x0 x1 =
          do {
            (full0, p1) \<leftarrow> expand_input ctx p x0;
            (full1, p2) \<leftarrow> expand_input ctx p1 x1;
            pts0 \<leftarrow> displaced ctx full0;
            pts1 \<leftarrow> displaced ctx full1;
            Some (\<not> is_step_collision_free ctx pts0 pts1 (boundary_edges ctx)
                      (boundary_triangles ctx), p2)
          })
   \<and> (displaced ctx full = Some pts \<longrightarrow>
        length pts = length full div nat (dimension ctx)
        \<and> (i < length pts \<and> d < nat (dimension ctx) \<longrightarrow>
             pts ! i ! d = boundary_nodes_pos ctx ! i ! d + full ! (i * nat (dimension ctx) + d)))"
proof -
  have a: "disable_collision g \<or> \<not> has_collision ctx \<Longrightarrow> is_step_valid ctx g p x0 x1 = Some (True, p)"
    by (auto simp: is_step_valid_def)
  have b: "is_step_valid ctx g p x0 x1 =
          do {
            (full0, p1) \<leftarrow> expand_input ctx p x0;
            (full1, p2) \<leftarrow> expand_input ctx p1 x1;
            pts0 \<leftarrow> displaced ctx full0;
            pts1 \<leftarrow> displaced ctx full1;
            Some (\<not> is_step_collision_free ctx pts0 pts1 (boundary_edges ctx)
                      (boundary_triangles ctx), p2)
          }" if on: "\<not> disable_collision g" "has_collision ctx"
  proof (cases "if int (length x0) = reduced_size p then reduced_to_full ctx p x0 else Some (x0, p)")
    case None
    then show ?thesis using on by (simp add: is_step_valid_def expand_input_def)
  next
    case (Some a)
    obtain f0 p1 where a: "a = (f0, p1)" by (cases a)
    note e0 = Some [unfolded a]
    have fs1: "full_size p1 = full_size p" using raw_expand_full_size [OF e0] by simp
    show ?thesis
    proof (cases "if int (length x1) = reduced_size p1 then reduced_to_full ctx p1 x1 else Some (x1, p1)")
      case None
      then show ?thesis using on e0 by (simp add: is_step_valid_def expand_input_def)
    next
      case (Some b)
      obtain f1 p2 where b: "b = (f1, p2)" by (cases b)
      note e1 = Some [unfolded b]
      have fs2: "full_size p2 = full_size p1" using raw_expand_full_size [OF e1] by simp
      show ?thesis using on e0 e1 fs1 fs2 by (simp add: is_step_valid_def expand_input_def)
    qed
  qed
  show ?thesis using a b displaced_entries by blast
qed

theorem is_step_valid_result_witness:
  "is_step_valid example_env initial_globals example_problem [1] [0, 1]
     = Some (True, example_problem)
   \<and> is_step_valid example_env contact_enabled example_problem [1] [0, 1]
     = Some (False, example_problem_rhs)
   \<and> displaced example_env [0, 1] = Some [[0, 1]]"
proof -
  have a: "disable_collision initial_globals" by (simp add: initial_globals_def)
  have b: "\<not> disable_collision contact_enabled \<and> has_collision example_env"
    by (simp add: contact_enabled_def example_env_def)
  have c: "do {
            (full0, p1) \<leftarrow> expand_input example_env example_problem [1];
            (full1, p2) \<leftarrow> expand_input example_env p1 [0, 1];
            pts0 \<leftarrow> displaced example_env full0;
            pts1 \<leftarrow> displaced example_env full1;
            Some (\<not> is_step_collision_free example_env pts0 pts1 (boundary_edges example_env)
                      (boundary_triangles example_env), p2)
          } = Some (False, example_problem_rhs)"
    by code_simp
  have d: "displaced example_env [0, 1] = Some [[0, 1]]" by code_simp
  show ?thesis
    using is_step_valid_result [of initial_globals example_env example_problem "[1]" "[0, 1]"]
      is_step_valid_result [of contact_enabled example_env example_problem "[1]" "[0, 1]"]
      a b c d
    by simp
qed

text \<open>
  Claim C7. On a problem that is not time dependent \<^verbatim>\<open>update_quantities(t, x)\<close> changes
  nothing: the object it returns is the object it was given, so \<^verbatim>\<open>x_prev\<close>,
  \<^verbatim>\<open>v_prev\<close>, \<^verbatim>\<open>dt\<close>, \<^verbatim>\<open>t\<close> and the validity of the cached right-hand side are
  the same.
\<close>

theorem update_quantities_static:
  assumes "\<not> is_time_dependent p"
  shows "update_quantities p t1 x = Some p"
  using assms by (simp add: update_quantities_def)

theorem update_quantities_static_witness:
  "update_quantities static_problem 3 [1, 1] = Some static_problem
   \<and> x_prev static_problem = [0, 0] \<and> \<not> rhs_computed static_problem"
  using update_quantities_static [of static_problem 3 "[1, 1]"]
  by (simp add: static_problem_def example_problem_def)

text \<open>
  Claim C8. With sorted-out boundary data (distinct indices inside the full vector, and
  \<open>reduced_size = full_size - |boundary_nodes|\<close>), for every reduced vector \<open>r\<close>, every
  full-size vector \<open>b\<close> of boundary values and every full vector \<open>x\<close>: reducing the
  expansion of \<open>r\<close> gives \<open>r\<close>; reducing, expanding and reducing \<open>x\<close> gives the
  reduction of \<open>x\<close>; and the expansion of the reduction of \<open>x\<close> has the entries of
  \<open>b\<close>, not those of \<open>x\<close>, at the boundary indices.
\<close>

theorem dof_reduction_round_trip:
  assumes "distinct bn" and "set bn \<subseteq> {0..<nat fs}" and "rs = fs - int (length bn)"
    and "int (length r) = rs" and "int (length b) = fs" and "int (length x) = fs"
  shows "Option.bind (reduced_to_full_aux bn fs rs r b) (full_to_reduced_aux bn fs rs) = Some r
    \<and> Option.bind (full_to_reduced_aux bn fs rs x)
         (\<lambda>y. Option.bind (reduced_to_full_aux bn fs rs y b) (full_to_reduced_aux bn fs rs))
       = full_to_reduced_aux bn fs rs x
    \<and> (\<exists>f. Option.bind (full_to_reduced_aux bn fs rs x) (\<lambda>y. reduced_to_full_aux bn fs rs y b) = Some f
          \<and> length f = length x \<and> list_all (\<lambda>i. f ! i = b ! i) bn)"
proof -
  have cnt: "length (filter (\<lambda>i. i \<notin> set bn) [0..<nat fs]) + length bn = nat fs"
    using assms(1,2) by (rule free_count)
  have round: "Option.bind (reduced_to_full_aux bn fs rs y b) (full_to_reduced_aux bn fs rs) = Some y
      \<and> (\<exists>f. reduced_to_full_aux bn fs rs y b = Some f \<and> length f = nat fs \<and> list_all (\<lambda>i. f ! i = b ! i) bn)"
    if len: "int (length y) = rs" for y
  proof -
    have "0 \<le> fs" using assms(6) by linarith
    then have "length y = length (filter (\<lambda>i. i \<notin> set bn) [0..<nat fs])"
      using len cnt assms(3) by linarith
    then obtain f where f: "scatter bn [0..<nat fs] y b = Some f"
      using scatter_defined by blast
    have lf: "length f = nat fs" using scatter_length [OF f] by simp
    have bd: "list_all (\<lambda>i. f ! i = b ! i) bn"
      unfolding list_all_iff
    proof
      fix i assume i: "i \<in> set bn"
      then have "i < nat fs" using assms(2) by auto
      with scatter_boundary [OF f, of i] i show "f ! i = b ! i" by simp
    qed
    have "map snd (filter (\<lambda>(i, v). i \<notin> set bn) (zip [0..<length f] f)) = y"
      using scatter_roundtrip [OF f] lf by simp
    with f lf bd len assms(5) show ?thesis
      by (simp add: reduced_to_full_aux_def full_to_reduced_aux_def)
  qed
  obtain y where y: "full_to_reduced_aux bn fs rs x = Some y" and ly: "int (length y) = rs"
  proof -
    have lx: "length x = nat fs" using assms(6) by simp
    have "length (filter (\<lambda>(i, v). i \<notin> set bn) (zip [0..<length x] x))
        = length (filter (\<lambda>i. i \<notin> set bn) [0..<length x])"
      by (rule length_filter_zip_upt)
    moreover have "0 \<le> fs" using assms(6) by linarith
    ultimately have "int (length (map snd (filter (\<lambda>(i, v). i \<notin> set bn) (zip [0..<length x] x)))) = rs"
      using cnt lx assms(3) by simp
    then show ?thesis using that assms(6) by (simp add: full_to_reduced_aux_def)
  qed
  from round [OF assms(4)] round [OF ly] y assms(6) show ?thesis by auto
qed

theorem dof_reduction_round_trip_witness:
  "Option.bind (reduced_to_full_aux [0, 1, 2] 6 3 [0, 0, 0] [1, 2, 3, 4, 5, 6])
      (full_to_reduced_aux [0, 1, 2] 6 3) = Some [0, 0, 0]
   \<and> reduced_to_full_aux [0, 1, 2] 6 3 [0, 0, 0] [1, 2, 3, 4, 5, 6] = Some [1, 2, 3, 0, 0, 0]
   \<and> Option.bind (full_to_reduced_aux [0, 1, 2] 6 3 [7, 8, 9, 10, 11, 12])
        (\<lambda>y. reduced_to_full_aux [0, 1, 2] 6 3 y [1, 2, 3, 4, 5, 6])
      = Some [1, 2, 3, 10, 11, 12]"
proof -
  have "reduced_to_full_aux [0, 1, 2] 6 3 [0, 0, 0] [1, 2, 3, 4, 5, 6] = Some [1, 2, 3, 0, 0, 0]"
    by code_simp
  moreover have "Option.bind (full_to_reduced_aux [0, 1, 2] 6 3 [7, 8, 9, 10, 11, 12])
        (\<lambda>y. reduced_to_full_aux [0, 1, 2] 6 3 y [1, 2, 3, 4, 5, 6])
      = Some [1, 2, 3, 10, 11, 12]"
    by code_simp
  ultimately show ?thesis
    using dof_reduction_round_trip
      [of "[0, 1, 2]" 6 3 "[0, 0, 0]" "[1, 2, 3, 4, 5, 6]" "[7, 8, 9, 10, 11, 12]"]
    by simp
qed

text \<open>
  Claim C9. \<^verbatim>\<open>reduced_to_full\<close> takes no boundary values from its caller: it calls
  \<^verbatim>\<open>current_rhs()\<close> and fills the boundary slots from that vector, which
  \<^verbatim>\<open>current_rhs\<close> ended by passing through \<^verbatim>\<open>set_bc\<close> at the current time. After the
  call the right-hand side is cached: it was computed by this call when it was not
  cached before, and the object is unchanged when it was. An input of reduced length
  is expanded this way.
\<close>

theorem reduced_to_full_boundary_from_rhs:
  assumes "reachable ctx (g, p)" and "reduced_to_full ctx p r = Some (full, p')"
  shows "\<exists>rhs v. current_rhs ctx p = Some (rhs, p')
      \<and> rhs = rhs_set_bc ctx v (cur_t p)
      \<and> rhs_computed p' \<and> current_rhs_cache p' = rhs
      \<and> (if rhs_computed p then p' = p else p' = p\<lparr>current_rhs_cache := rhs, rhs_computed := True\<rparr>)
      \<and> reduced_to_full_aux (boundary_nodes ctx) (full_size p) (reduced_size p) r rhs = Some full
      \<and> list_all (\<lambda>i. i < length full \<longrightarrow> full ! i = rhs ! i) (boundary_nodes ctx)
      \<and> int (length r) = reduced_size p \<and> expand_input ctx p r = Some (full, p')"
proof -
  from reduced_to_full_state [OF assms(2)] obtain rhs where c: "current_rhs ctx p = Some (rhs, p')"
    and a: "reduced_to_full_aux (boundary_nodes ctx) (full_size p) (reduced_size p) r rhs = Some full"
    by blast
  note p' = current_rhs_state [OF c]
  have "reachable ctx (g, p')" using assms(1) c by (rule after_current_rhs)
  moreover have rc: "rhs_computed p'" and cache: "current_rhs_cache p' = rhs" and t: "cur_t p' = cur_t p"
    by (simp_all add: p')
  ultimately obtain v where v: "rhs = rhs_set_bc ctx v (cur_t p)"
    using rhs_cache_from_set_bc [of ctx g p'] by auto
  have st: "if rhs_computed p then p' = p else p' = p\<lparr>current_rhs_cache := rhs, rhs_computed := True\<rparr>"
    using c p' by (auto simp: current_rhs_def)
  from a have sc: "scatter (boundary_nodes ctx) [0..<nat (full_size p)] r rhs = Some full"
    and lr: "int (length r) = reduced_size p" and lrhs: "int (length rhs) = full_size p"
    by (simp_all add: reduced_to_full_aux_def split: if_splits)
  have lf: "length full = nat (full_size p)" using scatter_length [OF sc] by simp
  have bd: "list_all (\<lambda>i. i < length full \<longrightarrow> full ! i = rhs ! i) (boundary_nodes ctx)"
    unfolding list_all_iff
  proof (intro ballI impI)
    fix i assume i: "i \<in> set (boundary_nodes ctx)" and "i < length full"
    with scatter_boundary [OF sc, of i] lf show "full ! i = rhs ! i" by simp
  qed
  have ex: "expand_input ctx p r = Some (full, p')"
    using lr assms(2) lf lrhs by (simp add: expand_input_def p')
  from c v rc cache st a bd ex lr show ?thesis by blast
qed

theorem reduced_to_full_boundary_from_rhs_witness:
  "reduced_to_full example_env example_problem [1] = Some ([0, 1], example_problem_rhs)
   \<and> expand_input example_env example_problem [1] = Some ([0, 1], example_problem_rhs)
   \<and> rhs_computed example_problem_rhs"
proof -
  have e: "reduced_to_full example_env example_problem [1] = Some ([0, 1], example_problem_rhs)"
    by code_simp
  from reduced_to_full_boundary_from_rhs [OF example_reachable e] e show ?thesis by blast
qed

text \<open>
  Claim C10. The constructor refuses a mixed formulation, so for every object a program
  holds the formulation is not mixed, \<^verbatim>\<open>full_size\<close> is the number of bases times the
  dimension, and the zero padding of \<^verbatim>\<open>current_rhs\<close> leaves every vector as it is.
\<close>

theorem never_mixed:
  assumes "reachable ctx (g, p)"
  shows "\<not> is_mixed ctx \<and> full_size p = n_bases ctx * dimension ctx \<and> mixed_padding ctx q r = r"
proof -
  have "\<not> is_mixed ctx \<and> full_size (snd (g, p)) = n_bases ctx * dimension ctx"
    using assms
  proof (rule reachable_invariant)
    fix t0 dt0 p0
    assume "NLProblem_new ctx t0 dt0 = Some p0"
    then show "\<not> is_mixed ctx \<and> full_size p0 = n_bases ctx * dimension ctx"
      by (auto simp: NLProblem_new_def Let_def split: if_splits)
  next
    fix p0 r0 p'
    assume "\<not> is_mixed ctx \<and> full_size p0 = n_bases ctx * dimension ctx"
      and "current_rhs ctx p0 = Some (r0, p')"
    then show "\<not> is_mixed ctx \<and> full_size p' = n_bases ctx * dimension ctx"
      by (auto dest: current_rhs_state)
  qed (auto simp: init_timestep_def update_quantities_def compute_cached_stiffness_def
        split: option.splits if_splits)
  then show ?thesis by (simp add: mixed_padding_def)
qed

theorem never_mixed_witness:
  "\<not> is_mixed example_env
   \<and> full_size example_problem = n_bases example_env * dimension example_env
   \<and> mixed_padding example_env example_problem [0, 0] = [0, 0]"
  using never_mixed [OF example_reachable, of example_problem "[0, 0]"] by simp

end
